theory Spec2Isabelle
  imports Main
begin

section \<open>Provenance tracing (medkit/core/prov\_tracer.py)\<close>

text \<open>
  Exceptions of the tracer become values. \<open>AssertionError\<close>, \<open>RuntimeError\<close> and
  \<open>ValueError\<close> are the three exceptions \<open>prov_tracer.py\<close> raises itself (its
  \<open>assert\<close> statements are modelled as executed, that is Python without \<open>-O\<close>).
  \<open>UsageError\<close> stands for the failures of the graph and of the store, whose exception
  classes the specification does not name ("fails", "fatal usage error").
\<close>

datatype error = AssertionError | RuntimeError | ValueError | UsageError

text \<open>
  Data items and operation descriptions are opaque to the tracer: it reads their
  \<open>uid\<close> only. The second field stands for the rest of the object.
\<close>

datatype data_item = DataItem (uid: string) (content: string)

datatype op_desc = OperationDescription (op_uid: string) (op_name: string)

record ProvNode =
  data_item_id :: string
  operation_id :: "string option"
  source_ids :: "string list"
  derived_ids :: "string list"

text \<open>
  Modelled from the spec: the class \<open>ProvGraph\<close> of \<open>medkit/core/_prov_graph.py\<close>,
  which is not among the sources. Section 4.2 of the specification: nodes keyed by
  data item id, and named sub-graphs keyed by the id of the composite operation. Both
  dictionaries are association lists in insertion order, at most one entry per key.
\<close>

datatype ProvGraph =
  ProvGraph (nodes_by_id: "(string \<times> ProvNode) list")
            (sub_graphs_by_op_id: "(string \<times> ProvGraph) list")

definition has_node :: "ProvGraph \<Rightarrow> string \<Rightarrow> bool" where
  "has_node g i = (map_of (nodes_by_id g) i \<noteq> None)"

text \<open>Modelled from the spec: \<open>get_node\<close>, "point lookup (fails if absent)".\<close>

definition get_node :: "ProvGraph \<Rightarrow> string \<Rightarrow> error + ProvNode" where
  "get_node g i = (case map_of (nodes_by_id g) i of None \<Rightarrow> Inl UsageError | Some n \<Rightarrow> Inr n)"

definition get_nodes :: "ProvGraph \<Rightarrow> ProvNode list" where
  "get_nodes g = map snd (nodes_by_id g)"

text \<open>
  The back link of one source: \<open>i\<close> is appended to the \<open>derived_ids\<close> of the node of
  \<open>s\<close> when \<open>s\<close> has a node, and nothing happens otherwise.
\<close>

fun add_derived :: "string \<Rightarrow> string \<Rightarrow> (string \<times> ProvNode) list \<Rightarrow> (string \<times> ProvNode) list" where
  "add_derived i s [] = []"
| "add_derived i s ((k, n) # ns) =
     (if k = s then (k, n\<lparr>derived_ids := derived_ids n @ [i]\<rparr>) # ns
      else (k, n) # add_derived i s ns)"

text \<open>
  Modelled from the spec: \<open>add_node\<close>. "Fails if \<open>data_item_id\<close> already has a node.
  Registers the node and appends \<open>data_item_id\<close> to the \<open>derived_ids\<close> of every id in
  \<open>source_ids\<close> that already has a node"; source ids without a node "are simply not
  back-linked".
\<close>

definition add_node :: "ProvGraph \<Rightarrow> string \<Rightarrow> string option \<Rightarrow> string list \<Rightarrow> error + ProvGraph" where
  "add_node g i opn srcs =
     (if has_node g i then Inl UsageError
      else
        let node = \<lparr>data_item_id = i, operation_id = opn, source_ids = srcs, derived_ids = []\<rparr>;
            registered = nodes_by_id g @ [(i, node)]
        in Inr (ProvGraph (foldl (\<lambda>ns s. add_derived i s ns) registered srcs)
                          (sub_graphs_by_op_id g)))"

definition has_sub_graph :: "ProvGraph \<Rightarrow> string \<Rightarrow> bool" where
  "has_sub_graph g opn = (map_of (sub_graphs_by_op_id g) opn \<noteq> None)"

definition get_sub_graph :: "ProvGraph \<Rightarrow> string \<Rightarrow> error + ProvGraph" where
  "get_sub_graph g opn =
     (case map_of (sub_graphs_by_op_id g) opn of None \<Rightarrow> Inl UsageError | Some sg \<Rightarrow> Inr sg)"

text \<open>
  Modelled from the spec: \<open>add_sub_graph\<close>, "an operation id may own at most one
  sub-graph"; a second sub-graph under the same operation id is a fatal usage error.
\<close>

definition add_sub_graph :: "ProvGraph \<Rightarrow> string \<Rightarrow> ProvGraph \<Rightarrow> error + ProvGraph" where
  "add_sub_graph g opn sg =
     (if has_sub_graph g opn then Inl UsageError
      else Inr (ProvGraph (nodes_by_id g) (sub_graphs_by_op_id g @ [(opn, sg)])))"

text \<open>
  Modelled from the spec: the class \<open>ProvStore\<close> of \<open>medkit/core/prov_store.py\<close>, which
  is not among the sources. Section 3: an "identity map id \<open>\<rightarrow>\<close> (data item | operation
  description)", "mutated only through append (insert-if-absent)". A lookup of an id
  that the store does not hold as the requested kind fails.
\<close>

datatype stored = StoredItem data_item | StoredOp op_desc

type_synonym ProvStore = "string \<rightharpoonup> stored"

definition store_data_item :: "ProvStore \<Rightarrow> data_item \<Rightarrow> ProvStore" where
  "store_data_item st d = (if st (uid d) = None then st(uid d \<mapsto> StoredItem d) else st)"

definition store_op_desc :: "ProvStore \<Rightarrow> op_desc \<Rightarrow> ProvStore" where
  "store_op_desc st opd = (if st (op_uid opd) = None then st(op_uid opd \<mapsto> StoredOp opd) else st)"

definition get_data_item :: "ProvStore \<Rightarrow> string \<Rightarrow> error + data_item" where
  "get_data_item st i = (case st i of Some (StoredItem d) \<Rightarrow> Inr d | _ \<Rightarrow> Inl UsageError)"

definition get_op_desc :: "ProvStore \<Rightarrow> string \<Rightarrow> error + op_desc" where
  "get_op_desc st i = (case st i of Some (StoredOp opd) \<Rightarrow> Inr opd | _ \<Rightarrow> Inl UsageError)"

text \<open>
  A tracer holds a reference to its store and its graph. Stores are shared between a
  tracer and its sub-tracers, and \<open>add_prov_from_sub_tracer\<close> compares them by
  identity (\<open>self.store is sub_tracer.store\<close>), so the stores live in a heap and a
  tracer holds the address of its store.
\<close>

type_synonym heap = "nat \<Rightarrow> ProvStore"

record ProvTracer =
  store :: nat
  graph :: ProvGraph

record Prov =
  data_item :: data_item
  op_desc :: "op_desc option"
  source_data_items :: "data_item list"
  derived_data_items :: "data_item list"

text \<open>
  \<open>add_prov\<close>: the assertion comes first, then the three kinds of store insertions,
  then the node. The result carries the heap and the tracer as the call leaves them,
  also when it raises.
\<close>

definition add_prov ::
  "heap \<Rightarrow> ProvTracer \<Rightarrow> data_item \<Rightarrow> op_desc \<Rightarrow> data_item list \<Rightarrow> (error + unit) \<times> heap \<times> ProvTracer" where
  "add_prov h t d opd srcs =
     (if has_node (graph t) (uid d) then (Inl AssertionError, h, t)
      else
        let st1 = store_data_item (h (store t)) d;
            st2 = store_op_desc st1 opd;
            st3 = foldl store_data_item st2 srcs;
            h' = h(store t := st3)
        in case add_node (graph t) (uid d) (Some (op_uid opd)) (map uid srcs) of
             Inl e \<Rightarrow> (Inl e, h', t)
           | Inr g \<Rightarrow> (Inr (), h', t\<lparr>graph := g\<rparr>))"

subsection \<open>The backward traversal of the sub-graph\<close>

text \<open>
  The \<open>while queue\<close> loop of \<open>_add_prov_from_sub_tracer_for_data_item\<close> pops the head of
  the queue, marks it as seen, appends it to the source ids when its node has no
  operation, and extends the queue with those of its sources that are not seen. A node
  is marked only when it is popped, so the queue may hold an id several times and the
  loop is not structurally recursive: its termination is proved with a weight on the
  queue. With \<open>k\<close> nodes not yet seen and \<open>d\<close> the longest \<open>source_ids\<close> of the graph,
  an unseen id of the queue weighs \<open>bfs_weight d k\<close> and a seen one
  \<open>bfs_weight d (k + 1)\<close>.
\<close>

fun bfs_weight :: "nat \<Rightarrow> nat \<Rightarrow> nat" where
  "bfs_weight d 0 = 1"
| "bfs_weight d (Suc k) = d * bfs_weight d k + 1"

definition max_sources :: "ProvGraph \<Rightarrow> nat" where
  "max_sources g = foldr max (map (\<lambda>kn. length (source_ids (snd kn))) (nodes_by_id g)) 0"

definition unseen :: "ProvGraph \<Rightarrow> string set \<Rightarrow> nat" where
  "unseen g seen = card (fst ` set (nodes_by_id g) - seen)"

definition bfs_measure :: "ProvGraph \<Rightarrow> string list \<Rightarrow> string set \<Rightarrow> nat" where
  "bfs_measure g queue seen =
     sum_list (map (\<lambda>y. bfs_weight (max_sources g)
                 (unseen g seen + (if y \<in> seen then 1 else 0))) queue)"

lemma bfs_weight_zero: "bfs_weight 0 k = 1"
  by (cases k) simp_all

lemma bfs_weight_step: "bfs_weight d k \<le> bfs_weight d (Suc k)"
  by (cases d) (simp_all add: bfs_weight_zero)

lemma bfs_weight_mono: "k \<le> k' \<Longrightarrow> bfs_weight d k \<le> bfs_weight d k'"
  by (induction rule: dec_induct) (auto intro: le_trans bfs_weight_step)

lemma foldr_max_ge: "x \<in> set xs \<Longrightarrow> (x::nat) \<le> foldr max xs 0"
  by (induction xs) auto

lemma max_sources_ge:
  assumes "map_of (nodes_by_id g) x = Some n"
  shows "length (source_ids n) \<le> max_sources g"
proof -
  from assms have "(x, n) \<in> set (nodes_by_id g)" by (rule map_of_SomeD)
  then have "length (source_ids n) \<in> set (map (\<lambda>kn. length (source_ids (snd kn))) (nodes_by_id g))"
    by force
  then show ?thesis unfolding max_sources_def by (rule foldr_max_ge)
qed

lemma sum_list_const_filter:
  "sum_list (map (\<lambda>y. (c::nat)) (filter P xs)) \<le> length xs * c"
  by (induction xs) auto

lemma sum_list_map_mono:
  "(\<And>y. y \<in> set xs \<Longrightarrow> f y \<le> (g y :: nat)) \<Longrightarrow> sum_list (map f xs) \<le> sum_list (map g xs)"
  by (induction xs) (auto intro: add_mono)

lemma unseen_insert_new:
  assumes "map_of (nodes_by_id g) x = Some n" and "x \<notin> seen"
  shows "Suc (unseen g (insert x seen)) = unseen g seen"
proof -
  let ?K = "fst ` set (nodes_by_id g)"
  from assms(1) have "(x, n) \<in> set (nodes_by_id g)" by (rule map_of_SomeD)
  then have "x \<in> ?K" by force
  with assms(2) have x: "x \<in> ?K - seen" by simp
  have "?K - insert x seen = (?K - seen) - {x}" by auto
  then have "card (?K - insert x seen) = card (?K - seen) - 1"
    using x by (simp add: card_Diff_singleton)
  moreover have "card (?K - seen) > 0" using x by (auto simp: card_gt_0_iff)
  ultimately show ?thesis unfolding unseen_def by simp
qed

lemma bfs_measure_decreases:
  assumes n: "map_of (nodes_by_id g) x = Some n"
  shows "bfs_measure g (queue @ filter (\<lambda>u. u \<notin> insert x seen) (source_ids n)) (insert x seen)
           < bfs_measure g (x # queue) seen"
proof -
  let ?d = "max_sources g"
  let ?W = "bfs_weight ?d"
  let ?seen' = "insert x seen"
  let ?new = "filter (\<lambda>u. u \<notin> ?seen') (source_ids n)"
  let ?w = "\<lambda>s y. ?W (unseen g s + (if y \<in> s then 1 else 0))"
  have len: "length (source_ids n) \<le> ?d" using n by (rule max_sources_ge)
  have new_eq: "sum_list (map (?w ?seen') ?new) = sum_list (map (\<lambda>y. ?W (unseen g ?seen')) ?new)"
    by (rule arg_cong[where f = sum_list]) (simp cong: map_cong)
  have "sum_list (map (\<lambda>y. ?W (unseen g ?seen')) ?new) \<le> length (source_ids n) * ?W (unseen g ?seen')"
    by (rule sum_list_const_filter)
  also have "\<dots> \<le> ?d * ?W (unseen g ?seen')" using len by (rule mult_le_mono1)
  finally have new: "sum_list (map (?w ?seen') ?new) \<le> ?d * ?W (unseen g ?seen')"
    using new_eq by simp
  show ?thesis
  proof (cases "x \<in> seen")
    case True
    then have same: "?seen' = seen" by auto
    have "sum_list (map (?w ?seen') ?new) < ?w seen x"
      using new True by (simp add: same)
    then show ?thesis unfolding bfs_measure_def by (simp add: same)
  next
    case False
    from unseen_insert_new[OF n False] have k: "unseen g seen = Suc (unseen g ?seen')" by simp
    have rest: "sum_list (map (?w ?seen') queue) \<le> sum_list (map (?w seen) queue)"
    proof (rule sum_list_map_mono)
      fix y
      show "?w ?seen' y \<le> ?w seen y"
        by (rule bfs_weight_mono) (simp add: k)
    qed
    have "sum_list (map (?w ?seen') ?new) < ?w seen x"
      using new False by (simp add: k)
    with rest show ?thesis unfolding bfs_measure_def by simp
  qed
qed

text \<open>
  The loop returns its final state: the collected source ids and the set of seen ids
  (the caller reads the source ids only). A source id without a node makes
  \<open>get_node\<close> fail, and the loop with it.
\<close>

function find_source_ids ::
  "ProvGraph \<Rightarrow> string list \<Rightarrow> string set \<Rightarrow> string list \<Rightarrow> error + (string list \<times> string set)" where
  "find_source_ids sub_graph [] seen source_ids_acc = Inr (source_ids_acc, seen)"
| "find_source_ids sub_graph (sub_graph_node_id # queue) seen source_ids_acc =
     (case get_node sub_graph sub_graph_node_id of
        Inl e \<Rightarrow> Inl e
      | Inr sub_graph_node \<Rightarrow>
          find_source_ids sub_graph
            (queue @ filter (\<lambda>u. u \<notin> insert sub_graph_node_id seen) (source_ids sub_graph_node))
            (insert sub_graph_node_id seen)
            (if operation_id sub_graph_node = None then source_ids_acc @ [sub_graph_node_id]
             else source_ids_acc))"
  by pat_completeness auto
termination
proof (relation "measure (\<lambda>(g, queue, seen, acc). bfs_measure g queue seen)")
  show "wf (measure (\<lambda>(g, queue, seen, acc). bfs_measure g queue seen))" by simp
next
  fix sub_graph :: ProvGraph and sub_graph_node_id queue seen and source_ids_acc :: "string list"
    and sub_graph_node
  assume "get_node sub_graph sub_graph_node_id = Inr sub_graph_node"
  then have "map_of (nodes_by_id sub_graph) sub_graph_node_id = Some sub_graph_node"
    by (simp add: get_node_def split: option.splits)
  then show "((sub_graph, queue @ filter (\<lambda>u. u \<notin> insert sub_graph_node_id seen) (source_ids sub_graph_node),
             insert sub_graph_node_id seen,
             if operation_id sub_graph_node = None then source_ids_acc @ [sub_graph_node_id] else source_ids_acc),
            (sub_graph, sub_graph_node_id # queue, seen, source_ids_acc))
           \<in> measure (\<lambda>(g, queue, seen, acc). bfs_measure g queue seen)"
    using bfs_measure_decreases by simp
qed

text \<open>
  The same loop read level by level, for the claims about the order of the traversal.
  \<open>dequeue_all\<close> runs the body of the loop on every id of the queue in turn and returns
  the ids that these iterations append to the queue, with the ids seen afterwards; since
  the queue is first in first out, the appended ids are the next queue.
  \<open>bfs_level k\<close> is the queue and the seen ids after \<open>k\<close> such rounds. That the loop is the
  iteration of these rounds is \<open>find_source_ids_whole_level\<close> below.
\<close>

fun dequeue_all ::
  "ProvGraph \<Rightarrow> string list \<Rightarrow> string set \<Rightarrow> error + (string list \<times> string set)" where
  "dequeue_all sub_graph [] seen = Inr ([], seen)"
| "dequeue_all sub_graph (x # queue) seen =
     (case get_node sub_graph x of
        Inl e \<Rightarrow> Inl e
      | Inr node \<Rightarrow>
          (case dequeue_all sub_graph queue (insert x seen) of
             Inl e \<Rightarrow> Inl e
           | Inr (new, seen') \<Rightarrow>
               Inr (filter (\<lambda>u. u \<notin> insert x seen) (source_ids node) @ new, seen')))"

fun bfs_level ::
  "ProvGraph \<Rightarrow> nat \<Rightarrow> string list \<Rightarrow> string set \<Rightarrow> error + (string list \<times> string set)" where
  "bfs_level sub_graph 0 queue seen = Inr (queue, seen)"
| "bfs_level sub_graph (Suc k) queue seen =
     (case dequeue_all sub_graph queue seen of
        Inl e \<Rightarrow> Inl e
      | Inr (new, seen') \<Rightarrow> bfs_level sub_graph k new seen')"

subsection \<open>Collapsing a sub-tracer into its parent\<close>

text \<open>
  \<open>_add_prov_from_sub_tracer_for_data_item\<close>, on the parent's graph: two assertions,
  the traversal from the data item, and the new node with the collected source ids.
\<close>

definition add_prov_from_sub_tracer_for_data_item ::
  "ProvGraph \<Rightarrow> string \<Rightarrow> string \<Rightarrow> ProvGraph \<Rightarrow> (error + unit) \<times> ProvGraph" where
  "add_prov_from_sub_tracer_for_data_item g item_id opn sub_graph =
     (if has_node g item_id then (Inl AssertionError, g)
      else if \<not> has_node sub_graph item_id then (Inl AssertionError, g)
      else case find_source_ids sub_graph [item_id] {} [] of
             Inl e \<Rightarrow> (Inl e, g)
           | Inr (srcs, seen) \<Rightarrow>
               (case add_node g item_id (Some opn) srcs of
                  Inl e \<Rightarrow> (Inl e, g)
                | Inr g' \<Rightarrow> (Inr (), g')))"

text \<open>
  The \<open>for data_item in data_items\<close> loop of \<open>add_prov_from_sub_tracer\<close>. An item that
  already has a node is skipped when the node's operation is the composite operation,
  and raises \<open>RuntimeError\<close> otherwise. The graph is returned as the loop leaves it,
  also when it raises.
\<close>

fun add_prov_for_data_items ::
  "ProvGraph \<Rightarrow> data_item list \<Rightarrow> string \<Rightarrow> ProvGraph \<Rightarrow> (error + unit) \<times> ProvGraph" where
  "add_prov_for_data_items g [] opn sub_graph = (Inr (), g)"
| "add_prov_for_data_items g (d # ds) opn sub_graph =
     (if has_node g (uid d) then
        (case get_node g (uid d) of
           Inl e \<Rightarrow> (Inl e, g)
         | Inr node \<Rightarrow>
             if operation_id node \<noteq> Some opn then (Inl RuntimeError, g)
             else add_prov_for_data_items g ds opn sub_graph)
      else
        (case add_prov_from_sub_tracer_for_data_item g (uid d) opn sub_graph of
           (Inl e, g') \<Rightarrow> (Inl e, g')
         | (Inr u, g') \<Rightarrow> add_prov_for_data_items g' ds opn sub_graph))"

definition add_prov_from_sub_tracer ::
  "heap \<Rightarrow> ProvTracer \<Rightarrow> data_item list \<Rightarrow> op_desc \<Rightarrow> ProvTracer \<Rightarrow> (error + unit) \<times> heap \<times> ProvTracer" where
  "add_prov_from_sub_tracer h t data_items opd sub_tracer =
     (if store t \<noteq> store sub_tracer then (Inl AssertionError, h, t)
      else
        let h' = h(store t := store_op_desc (h (store t)) opd);
            sub_graph = graph sub_tracer
        in case add_sub_graph (graph t) (op_uid opd) sub_graph of
             Inl e \<Rightarrow> (Inl e, h', t)
           | Inr g \<Rightarrow>
               (case add_prov_for_data_items g data_items (op_uid opd) sub_graph of
                  (r, g') \<Rightarrow> (r, h', t\<lparr>graph := g'\<rparr>)))"

subsection \<open>Queries\<close>

definition has_prov :: "ProvTracer \<Rightarrow> string \<Rightarrow> bool" where
  "has_prov t item_id = has_node (graph t) item_id"

text \<open>The list comprehensions of \<open>_build_prov_from_node\<close>: the first failing lookup raises.\<close>

fun get_data_items :: "ProvStore \<Rightarrow> string list \<Rightarrow> error + data_item list" where
  "get_data_items st [] = Inr []"
| "get_data_items st (i # is) =
     (case get_data_item st i of
        Inl e \<Rightarrow> Inl e
      | Inr d \<Rightarrow> (case get_data_items st is of Inl e \<Rightarrow> Inl e | Inr ds \<Rightarrow> Inr (d # ds)))"

text \<open>
  \<open>self.store.get_op_desc(node.operation_id) if node.operation_id is not None else None\<close>
\<close>

definition get_node_op_desc :: "ProvStore \<Rightarrow> string option \<Rightarrow> error + op_desc option" where
  "get_node_op_desc st opn =
     (case opn of
        None \<Rightarrow> Inr None
      | Some i \<Rightarrow> (case get_op_desc st i of Inl e \<Rightarrow> Inl e | Inr opd \<Rightarrow> Inr (Some opd)))"

definition build_prov_from_node :: "ProvStore \<Rightarrow> ProvNode \<Rightarrow> error + Prov" where
  "build_prov_from_node st node =
     (case get_data_item st (data_item_id node) of
        Inl e \<Rightarrow> Inl e
      | Inr d \<Rightarrow>
          (case get_node_op_desc st (operation_id node) of
             Inl e \<Rightarrow> Inl e
           | Inr opd \<Rightarrow>
               (case get_data_items st (source_ids node) of
                  Inl e \<Rightarrow> Inl e
                | Inr srcs \<Rightarrow>
                    (case get_data_items st (derived_ids node) of
                       Inl e \<Rightarrow> Inl e
                     | Inr ders \<Rightarrow>
                         Inr \<lparr>data_item = d, op_desc = opd, source_data_items = srcs,
                              derived_data_items = ders\<rparr>))))"

definition get_prov :: "heap \<Rightarrow> ProvTracer \<Rightarrow> string \<Rightarrow> error + Prov" where
  "get_prov h t item_id =
     (if \<not> has_node (graph t) item_id then Inl ValueError
      else case get_node (graph t) item_id of
             Inl e \<Rightarrow> Inl e
           | Inr node \<Rightarrow> build_prov_from_node (h (store t)) node)"

definition has_sub_prov_tracer :: "ProvTracer \<Rightarrow> string \<Rightarrow> bool" where
  "has_sub_prov_tracer t opn = has_sub_graph (graph t) opn"

definition get_sub_prov_tracer :: "ProvTracer \<Rightarrow> string \<Rightarrow> error + ProvTracer" where
  "get_sub_prov_tracer t opn =
     (case get_sub_graph (graph t) opn of
        Inl e \<Rightarrow> Inl e
      | Inr sub_graph \<Rightarrow> Inr \<lparr>store = store t, graph = sub_graph\<rparr>)"

section \<open>Lineage inside a graph\<close>

text \<open>
  The notions the claims about the traversal are stated with. \<open>is_source_of g x y\<close>: the
  node of \<open>x\<close> lists \<open>y\<close> among its sources. \<open>reaches g x y\<close>: \<open>y\<close> is reachable backward
  from \<open>x\<close> over source ids. \<open>external_input g x\<close>: \<open>x\<close> has a node without operation.
  \<open>is_path g xs\<close>: \<open>xs\<close> is a backward path. \<open>sources_closed g\<close>: every source id of
  every node has a node. \<open>sources_of g x\<close>: the source ids of the node of \<open>x\<close>.
  \<open>count_paths g k x y\<close>: the number of backward paths of \<open>k\<close> edges from \<open>x\<close> to \<open>y\<close>, a
  source id that a node lists twice being followed twice.
\<close>

definition is_source_of :: "ProvGraph \<Rightarrow> string \<Rightarrow> string \<Rightarrow> bool" where
  "is_source_of g x y = (\<exists>n. get_node g x = Inr n \<and> y \<in> set (source_ids n))"

definition reaches :: "ProvGraph \<Rightarrow> string \<Rightarrow> string \<Rightarrow> bool" where
  "reaches g = (is_source_of g)\<^sup>*\<^sup>*"

definition external_input :: "ProvGraph \<Rightarrow> string \<Rightarrow> bool" where
  "external_input g x = (\<exists>n. get_node g x = Inr n \<and> operation_id n = None)"

fun is_path :: "ProvGraph \<Rightarrow> string list \<Rightarrow> bool" where
  "is_path g [] = False"
| "is_path g [x] = True"
| "is_path g (x # y # ys) = (is_source_of g x y \<and> is_path g (y # ys))"

definition sources_of :: "ProvGraph \<Rightarrow> string \<Rightarrow> string list" where
  "sources_of g x = (case get_node g x of Inl e \<Rightarrow> [] | Inr n \<Rightarrow> source_ids n)"

fun count_paths :: "ProvGraph \<Rightarrow> nat \<Rightarrow> string \<Rightarrow> string \<Rightarrow> nat" where
  "count_paths g 0 x y = (if x = y then 1 else 0)"
| "count_paths g (Suc k) x y = sum_list (map (\<lambda>s. count_paths g k s y) (sources_of g x))"

definition sources_closed :: "ProvGraph \<Rightarrow> bool" where
  "sources_closed g = list_all (\<lambda>kn. list_all (has_node g) (source_ids (snd kn))) (nodes_by_id g)"

section \<open>A store that resolves a graph\<close>

text \<open>
  The notions the claim about \<open>get_prov\<close> is stated with. \<open>holds_item st i\<close>: the store
  holds a data item under the id \<open>i\<close>, and it is the item of that uid. \<open>holds_op st opn\<close>:
  the same for the operation description of a node, when the node has one.
  \<open>node_resolved st (k, n)\<close>: the node \<open>n\<close> is registered under its own id and the store
  holds its data item, its operation, its sources and its derived items.
  \<open>store_resolves h t\<close>: this holds of every node of the tracer's graph.
  \<open>ids_apart st items opd\<close>: no item shares its id with the operation, and an id that
  the store already holds is held as an object of the same kind and uid.
\<close>

definition holds_item :: "ProvStore \<Rightarrow> string \<Rightarrow> bool" where
  "holds_item st i = (case st i of Some (StoredItem d) \<Rightarrow> uid d = i | _ \<Rightarrow> False)"

definition holds_op :: "ProvStore \<Rightarrow> string option \<Rightarrow> bool" where
  "holds_op st opn =
     (case opn of
        None \<Rightarrow> True
      | Some i \<Rightarrow> (case st i of Some (StoredOp opd) \<Rightarrow> op_uid opd = i | _ \<Rightarrow> False))"

definition node_resolved :: "ProvStore \<Rightarrow> string \<times> ProvNode \<Rightarrow> bool" where
  "node_resolved st kn =
     (data_item_id (snd kn) = fst kn \<and> holds_item st (fst kn)
      \<and> holds_op st (operation_id (snd kn))
      \<and> list_all (holds_item st) (source_ids (snd kn))
      \<and> list_all (holds_item st) (derived_ids (snd kn)))"

definition store_resolves :: "heap \<Rightarrow> ProvTracer \<Rightarrow> bool" where
  "store_resolves h t = list_all (node_resolved (h (store t))) (nodes_by_id (graph t))"

definition ids_apart :: "ProvStore \<Rightarrow> data_item list \<Rightarrow> op_desc \<Rightarrow> bool" where
  "ids_apart st items opd =
     (list_all (\<lambda>x. uid x \<noteq> op_uid opd \<and> (st (uid x) = None \<or> holds_item st (uid x))) items
      \<and> (st (op_uid opd) = None \<or> holds_op st (Some (op_uid opd))))"

section \<open>Example states\<close>

text \<open>Concrete data items, operations, stores and tracers, used to run the model.\<close>

definition ex_A :: data_item where "ex_A = DataItem ''A'' ''raw text''"
definition ex_B :: data_item where "ex_B = DataItem ''B'' ''entity''"
definition ex_O1 :: op_desc where "ex_O1 = OperationDescription ''O1'' ''loader''"
definition ex_O2 :: op_desc where "ex_O2 = OperationDescription ''O2'' ''matcher''"

definition ex_heap :: heap where
  "ex_heap = (\<lambda>a. Map.empty)(0 := [''A'' \<mapsto> StoredItem ex_A, ''O1'' \<mapsto> StoredOp ex_O1,
                                   ''B'' \<mapsto> StoredItem ex_B, ''O2'' \<mapsto> StoredOp ex_O2])"

definition ex_tracer :: ProvTracer where
  "ex_tracer =
     \<lparr>store = 0,
      graph = ProvGraph
        [(''A'', \<lparr>data_item_id = ''A'', operation_id = Some ''O1'', source_ids = [],
                  derived_ids = [''B'']\<rparr>),
         (''B'', \<lparr>data_item_id = ''B'', operation_id = Some ''O2'', source_ids = [''A''],
                  derived_ids = []\<rparr>)]
        [(''P'', ProvGraph
            [(''C'', \<lparr>data_item_id = ''C'', operation_id = Some ''O3'', source_ids = [],
                      derived_ids = []\<rparr>)] [])]\<rparr>"

definition ex_P :: op_desc where "ex_P = OperationDescription ''P'' ''pipeline''"
definition ex_X :: data_item where "ex_X = DataItem ''X'' ''output''"
definition ex_Y :: data_item where "ex_Y = DataItem ''Y'' ''copied attribute''"

definition ex_sub_tracer :: ProvTracer where
  "ex_sub_tracer =
     \<lparr>store = 0,
      graph = ProvGraph
        [(''X'', \<lparr>data_item_id = ''X'', operation_id = Some ''I1'', source_ids = [],
                  derived_ids = []\<rparr>)] []\<rparr>"

definition ex_parent :: "string \<Rightarrow> ProvTracer" where
  "ex_parent opn =
     \<lparr>store = 0,
      graph = ProvGraph
        [(''Y'', \<lparr>data_item_id = ''Y'', operation_id = Some opn, source_ids = [],
                  derived_ids = []\<rparr>)] []\<rparr>"

definition ex_node :: "string \<Rightarrow> string option \<Rightarrow> string list \<Rightarrow> string \<times> ProvNode" where
  "ex_node i opn srcs =
     (i, \<lparr>data_item_id = i, operation_id = opn, source_ids = srcs, derived_ids = []\<rparr>)"

definition ex_sub_heap :: heap where
  "ex_sub_heap = (\<lambda>a. Map.empty)(0 := [''X'' \<mapsto> StoredItem ex_X,
                                       ''I1'' \<mapsto> StoredOp (OperationDescription ''I1'' ''step'')])"

definition ex_merged_heap :: heap where
  "ex_merged_heap = (\<lambda>a. Map.empty)(0 := [''X'' \<mapsto> StoredItem ex_X,
                                       ''I1'' \<mapsto> StoredOp (OperationDescription ''I1'' ''step''),
                                       ''P'' \<mapsto> StoredOp ex_P])"

definition ex_merged :: "(string \<times> ProvNode) list \<Rightarrow> ProvTracer" where
  "ex_merged before =
     \<lparr>store = 0,
      graph = ProvGraph (before @ [ex_node ''X'' (Some ''P'') []]) [(''P'', graph ex_sub_tracer)]\<rparr>"

definition ex_out :: data_item where "ex_out = DataItem ''out'' ''pipeline output''"

definition ex_empty_tracer :: ProvTracer where
  "ex_empty_tracer = \<lparr>store = 0, graph = ProvGraph [] []\<rparr>"

definition ex_chain :: ProvGraph where
  "ex_chain = ProvGraph
     [ex_node ''in1'' None [], ex_node ''in2'' None [],
      ex_node ''A'' (Some ''I1'') [''in1'', ''in2''],
      ex_node ''B'' (Some ''I2'') [''A''],
      ex_node ''out'' (Some ''I3'') [''B'']] []"

definition ex_diamond :: ProvGraph where
  "ex_diamond = ProvGraph
     [ex_node ''x'' None [],
      ex_node ''a'' (Some ''I1'') [''x''],
      ex_node ''b'' (Some ''I2'') [''x''],
      ex_node ''out'' (Some ''I3'') [''a'', ''b'']] []"

definition ex_skewed :: ProvGraph where
  "ex_skewed = ProvGraph
     [ex_node ''x'' None [],
      ex_node ''a'' (Some ''I1'') [''x''],
      ex_node ''c'' (Some ''I2'') [''x''],
      ex_node ''b'' (Some ''I3'') [''c''],
      ex_node ''out'' (Some ''I4'') [''a'', ''b'']] []"

definition ex_deep :: ProvGraph where
  "ex_deep = ProvGraph
     [ex_node ''x'' None [], ex_node ''y'' None [],
      ex_node ''a'' (Some ''I1'') [''x''],
      ex_node ''b'' (Some ''I2'') [''x''],
      ex_node ''m'' (Some ''I3'') [''a'', ''b''],
      ex_node ''e'' (Some ''I4'') [''y''],
      ex_node ''out'' (Some ''I5'') [''m'', ''e'']] []"

definition ex_long_first :: ProvGraph where
  "ex_long_first = ProvGraph
     [ex_node ''x'' None [],
      ex_node ''a'' (Some ''I1'') [''x''],
      ex_node ''c'' (Some ''I2'') [''x''],
      ex_node ''b'' (Some ''I3'') [''c''],
      ex_node ''out'' (Some ''I4'') [''b'', ''a'']] []"

section \<open>Properties of the graph\<close>

lemma add_derived_keys: "map fst (add_derived i s ns) = map fst ns"
  by (induction ns) auto

lemma foldl_add_derived_keys:
  "map fst (foldl (\<lambda>ns s. add_derived i s ns) ns srcs) = map fst ns"
  by (induction srcs arbitrary: ns) (simp_all add: add_derived_keys)

lemma has_node_keys: "has_node g i \<longleftrightarrow> i \<in> set (map fst (nodes_by_id g))"
  by (simp add: has_node_def map_of_eq_None_iff)

lemma add_node_keys:
  "add_node g i opn srcs = Inr g' \<Longrightarrow> map fst (nodes_by_id g') = map fst (nodes_by_id g) @ [i]"
  by (auto simp: add_node_def Let_def foldl_add_derived_keys split: if_splits)

lemma add_node_has_node:
  assumes "add_node g i opn srcs = Inr g'"
  shows "has_node g' j \<longleftrightarrow> has_node g j \<or> j = i"
proof -
  have "set (map fst (nodes_by_id g')) = set (map fst (nodes_by_id g) @ [i])"
    using add_node_keys[OF assms] by simp
  then show ?thesis unfolding has_node_keys by auto
qed

lemma add_node_succeeds:
  "\<not> has_node g i \<Longrightarrow> \<exists>g'. add_node g i opn srcs = Inr g'"
  by (simp add: add_node_def Let_def)

lemma add_node_sub_graphs:
  "add_node g i opn srcs = Inr g' \<Longrightarrow> sub_graphs_by_op_id g' = sub_graphs_by_op_id g"
  by (auto simp: add_node_def Let_def split: if_splits)

lemma map_of_add_derived:
  "map_of (add_derived i s ns) k =
     (if k = s then map_option (\<lambda>n. n\<lparr>derived_ids := derived_ids n @ [i]\<rparr>) (map_of ns k)
      else map_of ns k)"
  by (induction ns) auto

lemma map_of_foldl_add_derived:
  "map_of (foldl (\<lambda>ns s. add_derived i s ns) ns srcs) k =
     map_option (\<lambda>n. n\<lparr>derived_ids := derived_ids n @ replicate (count_list srcs k) i\<rparr>) (map_of ns k)"
proof (induction srcs arbitrary: ns)
  case Nil
  show ?case by (simp add: option.map_ident)
next
  case (Cons s srcs)
  show ?case
    by (simp add: Cons.IH map_of_add_derived option.map_comp comp_def replicate_app_Cons_same)
qed

section \<open>Properties of the tracer\<close>

text \<open>
  Claim C2. When \<open>add_prov\<close> has recorded a data item, a second \<open>add_prov\<close> for a data
  item with the same uid fails, whatever its operation and sources are: it raises at the
  assertion that opens the call, and leaves the heap and the tracer (so the provenance
  the first call recorded) as they were.
\<close>

theorem add_prov_twice_fails:
  assumes "add_prov h t d opd srcs = (Inr (), h1, t1)" and "uid d2 = uid d"
  shows "add_prov h1 t1 d2 opd2 srcs2 = (Inl AssertionError, h1, t1)"
proof -
  from assms(1) obtain g where g: "add_node (graph t) (uid d) (Some (op_uid opd)) (map uid srcs) = Inr g"
    and t1: "t1 = t\<lparr>graph := g\<rparr>"
    by (auto simp: add_prov_def Let_def split: if_splits sum.splits)
  from g have "has_node g (uid d)" by (simp add: add_node_has_node)
  with t1 assms(2) show ?thesis by (simp add: add_prov_def)
qed

theorem add_prov_twice_fails_witness:
  "add_prov (\<lambda>a. Map.empty) \<lparr>store = 0, graph = ProvGraph [] []\<rparr>
       (DataItem ''A'' ''first'') (OperationDescription ''O1'' ''op'') []
     = (Inr (),
        (\<lambda>a. Map.empty)(0 := [''A'' \<mapsto> StoredItem (DataItem ''A'' ''first''),
                               ''O1'' \<mapsto> StoredOp (OperationDescription ''O1'' ''op'')]),
        \<lparr>store = 0, graph = ProvGraph
           [(''A'', \<lparr>data_item_id = ''A'', operation_id = Some ''O1'', source_ids = [],
                     derived_ids = []\<rparr>)] []\<rparr>)
   \<and> add_prov
       ((\<lambda>a. Map.empty)(0 := [''A'' \<mapsto> StoredItem (DataItem ''A'' ''first''),
                               ''O1'' \<mapsto> StoredOp (OperationDescription ''O1'' ''op'')]))
       \<lparr>store = 0, graph = ProvGraph
           [(''A'', \<lparr>data_item_id = ''A'', operation_id = Some ''O1'', source_ids = [],
                     derived_ids = []\<rparr>)] []\<rparr>
       (DataItem ''A'' ''second'') (OperationDescription ''O2'' ''other'') [DataItem ''B'' ''src'']
     = (Inl AssertionError,
        (\<lambda>a. Map.empty)(0 := [''A'' \<mapsto> StoredItem (DataItem ''A'' ''first''),
                               ''O1'' \<mapsto> StoredOp (OperationDescription ''O1'' ''op'')]),
        \<lparr>store = 0, graph = ProvGraph
           [(''A'', \<lparr>data_item_id = ''A'', operation_id = Some ''O1'', source_ids = [],
                     derived_ids = []\<rparr>)] []\<rparr>)"
proof -
  have first: "add_prov (\<lambda>a. Map.empty) \<lparr>store = 0, graph = ProvGraph [] []\<rparr>
       (DataItem ''A'' ''first'') (OperationDescription ''O1'' ''op'') []
     = (Inr (),
        (\<lambda>a. Map.empty)(0 := [''A'' \<mapsto> StoredItem (DataItem ''A'' ''first''),
                               ''O1'' \<mapsto> StoredOp (OperationDescription ''O1'' ''op'')]),
        \<lparr>store = 0, graph = ProvGraph
           [(''A'', \<lparr>data_item_id = ''A'', operation_id = Some ''O1'', source_ids = [],
                     derived_ids = []\<rparr>)] []\<rparr>)"
    by (simp add: add_prov_def add_node_def has_node_def store_data_item_def store_op_desc_def)
  have same: "uid (DataItem ''A'' ''second'') = uid (DataItem ''A'' ''first'')" by simp
  show ?thesis using first add_prov_twice_fails[OF first same] by simp
qed

lemma get_data_items_error: "get_data_items st is = Inl e \<Longrightarrow> e = UsageError"
  by (induction "is" arbitrary: e)
     (auto simp: get_data_item_def split: sum.splits option.splits stored.splits)

lemma build_prov_from_node_error: "build_prov_from_node st node = Inl e \<Longrightarrow> e = UsageError"
  by (auto simp: build_prov_from_node_def get_data_item_def get_node_op_desc_def get_op_desc_def
           dest: get_data_items_error split: sum.splits option.splits stored.splits)

text \<open>
  Scenario 5 of the specification, run on the model: \<open>add_prov(A, O1, [])\<close> and then
  \<open>get_prov(A.uid)\<close> gives \<open>Prov(A, O1, [], [])\<close>; adding \<open>B\<close> derived from \<open>A\<close> makes
  \<open>B\<close> the derived data item of \<open>A\<close>.
\<close>

lemma scenario_add_prov_then_get_prov:
  "(case add_prov (\<lambda>a. Map.empty) \<lparr>store = 0, graph = ProvGraph [] []\<rparr> ex_A ex_O1 [] of
      (r1, h1, t1) \<Rightarrow>
        r1 = Inr ()
      \<and> get_prov h1 t1 ''A'' = Inr \<lparr>data_item = ex_A, op_desc = Some ex_O1,
                                     source_data_items = [], derived_data_items = []\<rparr>
      \<and> (case add_prov h1 t1 ex_B ex_O2 [ex_A] of
           (r2, h2, t2) \<Rightarrow>
             r2 = Inr ()
           \<and> get_prov h2 t2 ''A'' = Inr \<lparr>data_item = ex_A, op_desc = Some ex_O1,
                                          source_data_items = [], derived_data_items = [ex_B]\<rparr>))"
  by (simp add: add_prov_def add_node_def has_node_def store_data_item_def store_op_desc_def
        get_prov_def get_node_def build_prov_from_node_def get_data_item_def get_node_op_desc_def
        get_op_desc_def ex_A_def ex_B_def ex_O1_def ex_O2_def)

lemma find_source_ids_error:
  "find_source_ids sg queue seen acc = Inl e \<Longrightarrow> e = UsageError"
proof (induction sg queue seen acc rule: find_source_ids.induct)
  case (1 sg seen acc)
  then show ?case by simp
next
  case (2 sg x queue seen acc)
  show ?case
  proof (cases "get_node sg x")
    case (Inl e')
    with "2.prems" show ?thesis by (simp add: get_node_def split: option.splits)
  next
    case (Inr n)
    with "2.prems" "2.IH"[OF Inr] show ?thesis by simp
  qed
qed

lemma for_data_item_ok:
  assumes "add_prov_from_sub_tracer_for_data_item g i opn sg = (Inr u, g')"
  shows "\<exists>srcs seen. find_source_ids sg [i] {} [] = Inr (srcs, seen)
           \<and> add_node g i (Some opn) srcs = Inr g'"
  using assms
  by (auto simp del: find_source_ids.simps
           simp: add_prov_from_sub_tracer_for_data_item_def split: if_splits sum.splits prod.splits)

lemma for_data_item_error:
  assumes "add_prov_from_sub_tracer_for_data_item g i opn sg = (Inl e, g')"
  shows "g' = g \<and> e \<noteq> RuntimeError"
  using assms
  by (auto simp del: find_source_ids.simps
           simp: add_prov_from_sub_tracer_for_data_item_def add_node_def Let_def
           dest: find_source_ids_error split: if_splits sum.splits prod.splits)

lemma for_data_items_has_node:
  "add_prov_for_data_items g ds opn sg = (r, g') \<Longrightarrow> has_node g j \<Longrightarrow> has_node g' j"
proof (induction ds arbitrary: g)
  case Nil
  then show ?case by simp
next
  case (Cons d ds)
  show ?case
  proof (cases "has_node g (uid d)")
    case True
    with Cons.prems Cons.IH show ?thesis
      by (auto simp: get_node_def has_node_def split: option.splits if_splits)
  next
    case False
    obtain r1 g1 where s: "add_prov_from_sub_tracer_for_data_item g (uid d) opn sg = (r1, g1)"
      by (cases "add_prov_from_sub_tracer_for_data_item g (uid d) opn sg")
    show ?thesis
    proof (cases r1)
      case (Inl e)
      with s for_data_item_error[of g "uid d" opn sg e g1] Cons.prems False show ?thesis by simp
    next
      case (Inr u)
      with s for_data_item_ok[of g "uid d" opn sg u g1] obtain srcs
        where "add_node g (uid d) (Some opn) srcs = Inr g1" by blast
      then have "has_node g1 j" using Cons.prems(2) by (simp add: add_node_has_node)
      moreover have "add_prov_for_data_items g1 ds opn sg = (r, g')"
        using Cons.prems(1) False s Inr by simp
      ultimately show ?thesis using Cons.IH by blast
    qed
  qed
qed

lemma for_data_items_sub_graphs:
  "add_prov_for_data_items g ds opn sg = (r, g') \<Longrightarrow> sub_graphs_by_op_id g' = sub_graphs_by_op_id g"
proof (induction ds arbitrary: g)
  case Nil
  then show ?case by simp
next
  case (Cons d ds)
  show ?case
  proof (cases "has_node g (uid d)")
    case True
    with Cons.prems Cons.IH show ?thesis
      by (auto simp: get_node_def has_node_def split: option.splits if_splits)
  next
    case False
    obtain r1 g1 where s: "add_prov_from_sub_tracer_for_data_item g (uid d) opn sg = (r1, g1)"
      by (cases "add_prov_from_sub_tracer_for_data_item g (uid d) opn sg")
    show ?thesis
    proof (cases r1)
      case (Inl e)
      with s for_data_item_error[of g "uid d" opn sg e g1] Cons.prems False show ?thesis by simp
    next
      case (Inr u)
      with s for_data_item_ok[of g "uid d" opn sg u g1] obtain srcs
        where "add_node g (uid d) (Some opn) srcs = Inr g1" by blast
      then have "sub_graphs_by_op_id g1 = sub_graphs_by_op_id g" by (rule add_node_sub_graphs)
      moreover have "add_prov_for_data_items g1 ds opn sg = (r, g')"
        using Cons.prems(1) False s Inr by simp
      ultimately show ?thesis using Cons.IH by metis
    qed
  qed
qed

lemma for_data_items_runtime_error:
  "add_prov_for_data_items g ds opn sg = (Inl RuntimeError, g') \<Longrightarrow>
     \<exists>pre d post node. ds = pre @ d # post \<and> (\<forall>p\<in>set pre. has_node g' (uid p))
        \<and> get_node g' (uid d) = Inr node \<and> operation_id node \<noteq> Some opn"
proof (induction ds arbitrary: g)
  case Nil
  then show ?case by simp
next
  case (Cons d ds)
  show ?case
  proof (cases "has_node g (uid d)")
    case True
    then obtain node where node: "get_node g (uid d) = Inr node"
      by (auto simp: get_node_def has_node_def)
    show ?thesis
    proof (cases "operation_id node = Some opn")
      case False
      with Cons.prems True node have "g' = g" by simp
      with node False have "d # ds = [] @ d # ds \<and> (\<forall>p\<in>set []. has_node g' (uid p))
        \<and> get_node g' (uid d) = Inr node \<and> operation_id node \<noteq> Some opn" by simp
      then show ?thesis by blast
    next
      case same: True
      with Cons.prems True node have rest: "add_prov_for_data_items g ds opn sg = (Inl RuntimeError, g')"
        by simp
      from Cons.IH[OF rest] obtain pre d' post node' where
        "ds = pre @ d' # post" "\<forall>p\<in>set pre. has_node g' (uid p)"
        "get_node g' (uid d') = Inr node'" "operation_id node' \<noteq> Some opn" by blast
      moreover have "has_node g' (uid d)" using for_data_items_has_node[OF rest True] .
      ultimately have "d # ds = (d # pre) @ d' # post \<and> (\<forall>p\<in>set (d # pre). has_node g' (uid p))
        \<and> get_node g' (uid d') = Inr node' \<and> operation_id node' \<noteq> Some opn" by simp
      then show ?thesis by blast
    qed
  next
    case False
    obtain r1 g1 where s: "add_prov_from_sub_tracer_for_data_item g (uid d) opn sg = (r1, g1)"
      by (cases "add_prov_from_sub_tracer_for_data_item g (uid d) opn sg")
    show ?thesis
    proof (cases r1)
      case (Inl e)
      with s for_data_item_error[of g "uid d" opn sg e g1] Cons.prems False show ?thesis by simp
    next
      case (Inr u)
      with s for_data_item_ok[of g "uid d" opn sg u g1] obtain srcs
        where "add_node g (uid d) (Some opn) srcs = Inr g1" by blast
      then have d1: "has_node g1 (uid d)" by (simp add: add_node_has_node)
      have rest: "add_prov_for_data_items g1 ds opn sg = (Inl RuntimeError, g')"
        using Cons.prems(1) False s Inr by simp
      from Cons.IH[OF rest] obtain pre d' post node' where
        "ds = pre @ d' # post" "\<forall>p\<in>set pre. has_node g' (uid p)"
        "get_node g' (uid d') = Inr node'" "operation_id node' \<noteq> Some opn" by blast
      moreover have "has_node g' (uid d)" using for_data_items_has_node[OF rest d1] .
      ultimately have "d # ds = (d # pre) @ d' # post \<and> (\<forall>p\<in>set (d # pre). has_node g' (uid p))
        \<and> get_node g' (uid d') = Inr node' \<and> operation_id node' \<noteq> Some opn" by simp
      then show ?thesis by blast
    qed
  qed
qed

lemma for_data_items_known:
  assumes "get_node g (uid d) = Inr node"
  shows "add_prov_for_data_items g (d # ds) opn sg =
     (if operation_id node = Some opn then add_prov_for_data_items g ds opn sg
      else (Inl RuntimeError, g))"
  using assms by (auto simp: get_node_def has_node_def split: option.splits)

lemma for_data_items_append:
  "add_prov_for_data_items g (pre @ rest) opn sg =
     (case add_prov_for_data_items g pre opn sg of
        (Inl e, g1) \<Rightarrow> (Inl e, g1)
      | (Inr u, g1) \<Rightarrow> add_prov_for_data_items g1 rest opn sg)"
proof (induction pre arbitrary: g)
  case Nil
  show ?case by simp
next
  case (Cons d pre)
  show ?case
    by (simp add: Cons.IH split: sum.splits prod.splits)
qed

lemma add_node_old_node:
  assumes "add_node g i opn srcs = Inr g'" and "get_node g j = Inr n"
  shows "\<exists>n'. get_node g' j = Inr n' \<and> data_item_id n' = data_item_id n
            \<and> operation_id n' = operation_id n \<and> source_ids n' = source_ids n"
proof -
  from assms(1) have absent: "map_of (nodes_by_id g) i = None"
    and g': "nodes_by_id g' = foldl (\<lambda>ns s. add_derived i s ns)
        (nodes_by_id g @ [(i, \<lparr>data_item_id = i, operation_id = opn, source_ids = srcs,
                               derived_ids = []\<rparr>)]) srcs"
    by (auto simp: add_node_def has_node_def Let_def split: if_splits)
  from assms(2) have n: "map_of (nodes_by_id g) j = Some n"
    by (simp add: get_node_def split: option.splits)
  show ?thesis
    by (simp add: get_node_def g' map_of_foldl_add_derived map_add_def n)
qed

lemma for_data_items_old_node:
  "add_prov_for_data_items g ds opn sg = (r, g') \<Longrightarrow> get_node g j = Inr n \<Longrightarrow>
     \<exists>n'. get_node g' j = Inr n' \<and> data_item_id n' = data_item_id n
        \<and> operation_id n' = operation_id n \<and> source_ids n' = source_ids n"
proof (induction ds arbitrary: g n)
  case Nil
  then show ?case by simp
next
  case (Cons d ds)
  show ?case
  proof (cases "has_node g (uid d)")
    case True
    with Cons.prems Cons.IH[of g n] show ?thesis
      by (auto simp: get_node_def has_node_def split: option.splits if_splits)
  next
    case False
    obtain r1 g1 where s: "add_prov_from_sub_tracer_for_data_item g (uid d) opn sg = (r1, g1)"
      by (cases "add_prov_from_sub_tracer_for_data_item g (uid d) opn sg")
    show ?thesis
    proof (cases r1)
      case (Inl e)
      with s for_data_item_error[of g "uid d" opn sg e g1] Cons.prems False show ?thesis by simp
    next
      case (Inr u)
      with s for_data_item_ok[of g "uid d" opn sg u g1] obtain srcs
        where "add_node g (uid d) (Some opn) srcs = Inr g1" by blast
      from add_node_old_node[OF this Cons.prems(2)] obtain n1 where
        n1: "get_node g1 j = Inr n1" "data_item_id n1 = data_item_id n"
          "operation_id n1 = operation_id n" "source_ids n1 = source_ids n" by blast
      have "add_prov_for_data_items g1 ds opn sg = (r, g')"
        using Cons.prems(1) False s Inr by simp
      from Cons.IH[OF this n1(1)] n1 show ?thesis by auto
    qed
  qed
qed

text \<open>
  The call reaches the loop only when the uid of \<open>op_desc\<close> owns no sub-graph yet:
  otherwise \<open>add_sub_graph\<close> refuses the second one and the call ends there, whatever the
  items are.
\<close>

lemma second_sub_graph_refused:
  assumes "store t = store sub_tracer" and "has_sub_prov_tracer t (op_uid opd)"
  shows "add_prov_from_sub_tracer h t data_items opd sub_tracer =
     (Inl UsageError, h(store t := store_op_desc (h (store t)) opd), t)"
  using assms
  by (simp add: add_prov_from_sub_tracer_def add_sub_graph_def has_sub_prov_tracer_def Let_def)

text \<open>
  Claim C3. Let the loop of \<open>add_prov_from_sub_tracer\<close>, started on any graph \<open>g\<close>, reach
  the output item \<open>d\<close> after the items \<open>pre\<close>, on the graph \<open>g1\<close>, where the uid of \<open>d\<close>
  has a node: one the graph had before the loop, or one added for an earlier occurrence
  of the same id in \<open>pre\<close>. The item is accepted silently, that is the loop goes on with
  the items after it on the same graph \<open>g1\<close> (no node is added for it and no error comes
  from it), if and only if the \<open>operation_id\<close> of that node is the uid of \<open>op_desc\<close>;
  otherwise \<open>RuntimeError\<close> is raised at this item and the graph stays \<open>g1\<close>. A node that
  \<open>g\<close> had before the loop has kept its operation and its sources, so the test is on the
  operation recorded before. The call runs this loop on the parent graph with the
  sub-graph attached, once the store assertion and \<open>add_sub_graph\<close> have passed, and
  returns what the loop returns.
\<close>

theorem known_output_accepted_iff_same_operation:
  assumes "add_prov_for_data_items g pre opn sub_graph = (Inr (), g1)"
    and "get_node g1 (uid d) = Inr node"
  shows "add_prov_for_data_items g (pre @ d # post) opn sub_graph =
           (if operation_id node = Some opn then add_prov_for_data_items g1 post opn sub_graph
            else (Inl RuntimeError, g1))
   \<and> (\<forall>node0. get_node g (uid d) = Inr node0 \<longrightarrow>
         operation_id node = operation_id node0 \<and> source_ids node = source_ids node0)
   \<and> (store t = store sub_tracer
       \<and> add_sub_graph (graph t) (op_uid opd) (graph sub_tracer) = Inr g
       \<and> opn = op_uid opd \<and> sub_graph = graph sub_tracer \<longrightarrow>
         add_prov_from_sub_tracer h t (pre @ d # post) opd sub_tracer =
           (let h' = h(store t := store_op_desc (h (store t)) opd)
            in if operation_id node = Some (op_uid opd)
               then (case add_prov_for_data_items g1 post (op_uid opd) (graph sub_tracer) of
                       (r, g') \<Rightarrow> (r, h', t\<lparr>graph := g'\<rparr>))
               else (Inl RuntimeError, h', t\<lparr>graph := g1\<rparr>)))"
proof (intro conjI allI impI)
  show loop: "add_prov_for_data_items g (pre @ d # post) opn sub_graph =
      (if operation_id node = Some opn then add_prov_for_data_items g1 post opn sub_graph
       else (Inl RuntimeError, g1))"
    by (simp only: for_data_items_append assms(1) for_data_items_known[OF assms(2)]
          prod.case sum.case)
  {
    assume "store t = store sub_tracer
       \<and> add_sub_graph (graph t) (op_uid opd) (graph sub_tracer) = Inr g
       \<and> opn = op_uid opd \<and> sub_graph = graph sub_tracer"
    with loop show "add_prov_from_sub_tracer h t (pre @ d # post) opd sub_tracer =
           (let h' = h(store t := store_op_desc (h (store t)) opd)
            in if operation_id node = Some (op_uid opd)
               then (case add_prov_for_data_items g1 post (op_uid opd) (graph sub_tracer) of
                       (r, g') \<Rightarrow> (r, h', t\<lparr>graph := g'\<rparr>))
               else (Inl RuntimeError, h', t\<lparr>graph := g1\<rparr>))"
      by (simp add: add_prov_from_sub_tracer_def Let_def del: add_prov_for_data_items.simps)
  }
  {
    fix node0
    assume "get_node g (uid d) = Inr node0"
    from for_data_items_old_node[OF assms(1) this] assms(2)
    show "operation_id node = operation_id node0" and "source_ids node = source_ids node0"
      by auto
  }
qed

theorem known_output_accepted_iff_same_operation_witness:
  "add_prov_from_sub_tracer ex_sub_heap (ex_parent ''P'') [ex_X, ex_X, ex_Y] ex_P ex_sub_tracer =
     (Inr (), ex_merged_heap, ex_merged [ex_node ''Y'' (Some ''P'') []])
   \<and> add_prov_from_sub_tracer ex_sub_heap (ex_parent ''O9'') [ex_X, ex_Y] ex_P ex_sub_tracer =
     (Inl RuntimeError, ex_merged_heap, ex_merged [ex_node ''Y'' (Some ''O9'') []])"
proof -
  let ?g0 = "\<lambda>opn. ProvGraph [ex_node ''Y'' (Some opn) []] [(''P'', graph ex_sub_tracer)]"
  have shared: "store (ex_parent opn) = store ex_sub_tracer" for opn
    by (simp add: ex_parent_def ex_sub_tracer_def)
  have attached: "add_sub_graph (graph (ex_parent opn)) (op_uid ex_P) (graph ex_sub_tracer) = Inr (?g0 opn)"
    for opn
    by (simp add: ex_parent_def ex_P_def ex_node_def add_sub_graph_def has_sub_graph_def)
  have reached: "add_prov_for_data_items (?g0 opn) [ex_X] (op_uid ex_P) (graph ex_sub_tracer) =
      (Inr (), graph (ex_merged [ex_node ''Y'' (Some opn) []]))" for opn
    by (simp add: ex_X_def ex_P_def ex_node_def ex_sub_tracer_def ex_merged_def has_node_def
          get_node_def add_prov_from_sub_tracer_for_data_item_def add_node_def Let_def)
  have again: "get_node (graph (ex_merged [ex_node ''Y'' (Some opn) []])) (uid ex_X) =
      Inr (snd (ex_node ''X'' (Some ''P'') []))" for opn
    by (simp add: ex_merged_def ex_node_def ex_X_def get_node_def)
  have other: "get_node (graph (ex_merged [ex_node ''Y'' (Some opn) []])) (uid ex_Y) =
      Inr (snd (ex_node ''Y'' (Some opn) []))" for opn
    by (simp add: ex_merged_def ex_node_def ex_Y_def get_node_def)
  have "add_prov_from_sub_tracer ex_sub_heap (ex_parent ''P'') ([ex_X] @ ex_X # [ex_Y]) ex_P
          ex_sub_tracer =
     (Inr (), ex_merged_heap, ex_merged [ex_node ''Y'' (Some ''P'') []])"
    using known_output_accepted_iff_same_operation[where post = "[ex_Y]" and h = ex_sub_heap
          and t = "ex_parent ''P''" and opd = ex_P and sub_tracer = ex_sub_tracer,
        OF reached[of "''P''"] again[of "''P''"], THEN conjunct2, THEN conjunct2, THEN mp,
        OF conjI[OF shared[of "''P''"] conjI[OF attached[of "''P''"] conjI[OF refl refl]]]]
    by (simp add: ex_parent_def ex_P_def ex_Y_def ex_node_def ex_merged_def ex_sub_heap_def
          ex_merged_heap_def store_op_desc_def Let_def get_node_def has_node_def)
  moreover have "add_prov_from_sub_tracer ex_sub_heap (ex_parent ''O9'') ([ex_X] @ ex_Y # []) ex_P
          ex_sub_tracer =
     (Inl RuntimeError, ex_merged_heap, ex_merged [ex_node ''Y'' (Some ''O9'') []])"
    using known_output_accepted_iff_same_operation[where post = "[]" and h = ex_sub_heap
          and t = "ex_parent ''O9''" and opd = ex_P and sub_tracer = ex_sub_tracer,
        OF reached[of "''O9''"] other[of "''O9''"], THEN conjunct2, THEN conjunct2, THEN mp,
        OF conjI[OF shared[of "''O9''"] conjI[OF attached[of "''O9''"] conjI[OF refl refl]]]]
    by (simp add: ex_parent_def ex_P_def ex_Y_def ex_node_def ex_merged_def ex_sub_heap_def
          ex_merged_heap_def store_op_desc_def Let_def get_node_def has_node_def)
  ultimately show ?thesis by simp
qed

text \<open>
  Claim C10. \<open>add_prov_from_sub_tracer\<close> is not atomic: when it raises \<open>RuntimeError\<close>,
  the operation description has been stored, the sub-graph is registered under the
  operation's uid (it was not before, so the tracer has changed), every output item
  before the conflicting one has a node in the parent graph, and the conflicting item
  has a node of another operation.
\<close>

theorem sub_tracer_merge_not_atomic:
  assumes "store t = store sub_tracer"
    and "\<not> has_sub_prov_tracer t (op_uid opd)"
    and "add_prov_from_sub_tracer h t ds opd sub_tracer = (Inl RuntimeError, h', t')"
  shows "has_sub_prov_tracer t' (op_uid opd)
     \<and> get_sub_prov_tracer t' (op_uid opd) = Inr \<lparr>store = store t, graph = graph sub_tracer\<rparr>
     \<and> t' \<noteq> t
     \<and> h' = h(store t := store_op_desc (h (store t)) opd)
     \<and> (\<exists>pre d post node. ds = pre @ d # post \<and> (\<forall>p\<in>set pre. has_prov t' (uid p))
          \<and> get_node (graph t') (uid d) = Inr node \<and> operation_id node \<noteq> Some (op_uid opd))"
proof -
  let ?g = "ProvGraph (nodes_by_id (graph t))
              (sub_graphs_by_op_id (graph t) @ [(op_uid opd, graph sub_tracer)])"
  from assms obtain g' where
    loop: "add_prov_for_data_items ?g ds (op_uid opd) (graph sub_tracer) = (Inl RuntimeError, g')"
    and t': "t' = t\<lparr>graph := g'\<rparr>"
    and h': "h' = h(store t := store_op_desc (h (store t)) opd)"
    by (auto simp: add_prov_from_sub_tracer_def add_sub_graph_def has_sub_prov_tracer_def Let_def
          split: prod.splits if_splits)
  have subs: "sub_graphs_by_op_id g' = sub_graphs_by_op_id (graph t) @ [(op_uid opd, graph sub_tracer)]"
    using for_data_items_sub_graphs[OF loop] by simp
  have absent: "map_of (sub_graphs_by_op_id (graph t)) (op_uid opd) = None"
    using assms(2) by (simp add: has_sub_prov_tracer_def has_sub_graph_def)
  have lookup: "map_of (sub_graphs_by_op_id g') (op_uid opd) = Some (graph sub_tracer)"
    using absent by (simp add: subs map_add_def)
  have 1: "has_sub_prov_tracer t' (op_uid opd)"
    using lookup by (simp add: t' has_sub_prov_tracer_def has_sub_graph_def)
  have 2: "get_sub_prov_tracer t' (op_uid opd) = Inr \<lparr>store = store t, graph = graph sub_tracer\<rparr>"
    using lookup by (simp add: t' get_sub_prov_tracer_def get_sub_graph_def)
  have 3: "t' \<noteq> t" using 1 assms(2) by auto
  from for_data_items_runtime_error[OF loop]
  have 4: "\<exists>pre d post node. ds = pre @ d # post \<and> (\<forall>p\<in>set pre. has_prov t' (uid p))
          \<and> get_node (graph t') (uid d) = Inr node \<and> operation_id node \<noteq> Some (op_uid opd)"
    by (simp add: t' has_prov_def)
  from 1 2 3 h' 4 show ?thesis by blast
qed

theorem sub_tracer_merge_not_atomic_witness:
  "add_prov_from_sub_tracer (\<lambda>a. Map.empty) (ex_parent ''O9'') [ex_X, ex_Y] ex_P ex_sub_tracer =
     (Inl RuntimeError, (\<lambda>a. Map.empty)(0 := [''P'' \<mapsto> StoredOp ex_P]),
      \<lparr>store = 0,
       graph = ProvGraph
        [(''Y'', \<lparr>data_item_id = ''Y'', operation_id = Some ''O9'', source_ids = [],
                  derived_ids = []\<rparr>),
         (''X'', \<lparr>data_item_id = ''X'', operation_id = Some ''P'', source_ids = [],
                  derived_ids = []\<rparr>)]
        [(''P'', graph ex_sub_tracer)]\<rparr>)
   \<and> \<not> has_sub_prov_tracer (ex_parent ''O9'') ''P''
   \<and> \<not> has_prov (ex_parent ''O9'') ''X''
   \<and> has_sub_prov_tracer \<lparr>store = 0,
       graph = ProvGraph
        [(''Y'', \<lparr>data_item_id = ''Y'', operation_id = Some ''O9'', source_ids = [],
                  derived_ids = []\<rparr>),
         (''X'', \<lparr>data_item_id = ''X'', operation_id = Some ''P'', source_ids = [],
                  derived_ids = []\<rparr>)]
        [(''P'', graph ex_sub_tracer)]\<rparr> ''P''
   \<and> has_prov \<lparr>store = 0,
       graph = ProvGraph
        [(''Y'', \<lparr>data_item_id = ''Y'', operation_id = Some ''O9'', source_ids = [],
                  derived_ids = []\<rparr>),
         (''X'', \<lparr>data_item_id = ''X'', operation_id = Some ''P'', source_ids = [],
                  derived_ids = []\<rparr>)]
        [(''P'', graph ex_sub_tracer)]\<rparr> ''X''"
proof -
  let ?t' = "\<lparr>store = 0,
       graph = ProvGraph
        [(''Y'', \<lparr>data_item_id = ''Y'', operation_id = Some ''O9'', source_ids = [],
                  derived_ids = []\<rparr>),
         (''X'', \<lparr>data_item_id = ''X'', operation_id = Some ''P'', source_ids = [],
                  derived_ids = []\<rparr>)]
        [(''P'', graph ex_sub_tracer)]\<rparr>"
  have shared: "store (ex_parent ''O9'') = store ex_sub_tracer"
    by (simp add: ex_parent_def ex_sub_tracer_def)
  have fresh: "\<not> has_sub_prov_tracer (ex_parent ''O9'') (op_uid ex_P)"
    by (simp add: ex_parent_def ex_P_def has_sub_prov_tracer_def has_sub_graph_def)
  have run: "add_prov_from_sub_tracer (\<lambda>a. Map.empty) (ex_parent ''O9'') [ex_X, ex_Y] ex_P ex_sub_tracer =
     (Inl RuntimeError, (\<lambda>a. Map.empty)(0 := [''P'' \<mapsto> StoredOp ex_P]), ?t')"
    by (simp add: add_prov_from_sub_tracer_def add_sub_graph_def has_sub_graph_def
          add_prov_from_sub_tracer_for_data_item_def add_node_def has_node_def get_node_def
          store_op_desc_def ex_parent_def ex_sub_tracer_def ex_P_def ex_X_def ex_Y_def)
  have before: "\<not> has_prov (ex_parent ''O9'') ''X''"
    by (simp add: ex_parent_def has_prov_def has_node_def)
  have after: "has_prov ?t' ''X''"
    by (simp add: has_prov_def has_node_def)
  from sub_tracer_merge_not_atomic[OF shared fresh run]
  have "has_sub_prov_tracer ?t' (op_uid ex_P)" by blast
  then show ?thesis using run fresh before after by (simp add: ex_P_def)
qed

section \<open>Properties of the traversal\<close>
lemma reaches_refl: "reaches g x x"
  by (simp add: reaches_def)

lemma reaches_source:
  "get_node g x = Inr n \<Longrightarrow> u \<in> set (source_ids n) \<Longrightarrow> reaches g u y \<Longrightarrow> reaches g x y"
  unfolding reaches_def
  by (rule converse_rtranclp_into_rtranclp[where b = u]) (auto simp: is_source_of_def)

lemma find_source_ids_seen:
  "find_source_ids sg queue seen acc = Inr (res, S) \<Longrightarrow> seen \<union> set queue \<subseteq> S"
proof (induction sg queue seen acc rule: find_source_ids.induct)
  case (1 sg seen acc)
  then show ?case by simp
next
  case (2 sg x queue seen acc)
  from "2.prems" obtain n where n: "get_node sg x = Inr n"
    by (cases "get_node sg x") auto
  from "2.prems" n "2.IH"[OF n] show ?case by auto
qed

lemma find_source_ids_closed:
  "find_source_ids sg queue seen acc = Inr (res, S) \<Longrightarrow>
   (\<forall>z\<in>seen. \<forall>y. is_source_of sg z y \<longrightarrow> y \<in> seen \<union> set queue) \<Longrightarrow>
   (\<forall>z\<in>S. \<forall>y. is_source_of sg z y \<longrightarrow> y \<in> S)"
proof (induction sg queue seen acc rule: find_source_ids.induct)
  case (1 sg seen acc)
  then show ?case by simp
next
  case (2 sg x queue seen acc)
  from "2.prems"(1) obtain n where n: "get_node sg x = Inr n"
    by (cases "get_node sg x") auto
  let ?seen' = "insert x seen"
  let ?queue' = "queue @ filter (\<lambda>u. u \<notin> ?seen') (source_ids n)"
  have inv: "\<forall>z\<in>?seen'. \<forall>y. is_source_of sg z y \<longrightarrow> y \<in> ?seen' \<union> set ?queue'"
  proof (intro ballI allI impI)
    fix z y
    assume z: "z \<in> ?seen'" and zy: "is_source_of sg z y"
    show "y \<in> ?seen' \<union> set ?queue'"
    proof (cases "z \<in> seen")
      case True
      with "2.prems"(2) zy have "y \<in> seen \<union> set (x # queue)" by blast
      then show ?thesis by auto
    next
      case False
      with z have "z = x" by simp
      with zy n have "y \<in> set (source_ids n)" by (simp add: is_source_of_def)
      then show ?thesis by auto
    qed
  qed
  from "2.prems"(1) n "2.IH"[OF n _ inv] show ?case by simp
qed

lemma find_source_ids_reached:
  "find_source_ids sg queue seen acc = Inr (res, S) \<Longrightarrow>
   S \<subseteq> seen \<union> {y. \<exists>x\<in>set queue. reaches sg x y}"
proof (induction sg queue seen acc rule: find_source_ids.induct)
  case (1 sg seen acc)
  then show ?case by simp
next
  case (2 sg x queue seen acc)
  from "2.prems"(1) obtain n where n: "get_node sg x = Inr n"
    by (cases "get_node sg x") auto
  let ?seen' = "insert x seen"
  let ?queue' = "queue @ filter (\<lambda>u. u \<notin> ?seen') (source_ids n)"
  from "2.prems"(1) n "2.IH"[OF n]
  have S: "S \<subseteq> ?seen' \<union> {y. \<exists>u\<in>set ?queue'. reaches sg u y}" by simp
  show ?case
  proof
    fix y
    assume "y \<in> S"
    with S consider "y = x" | "y \<in> seen" | u where "u \<in> set queue" "reaches sg u y"
      | u where "u \<in> set (source_ids n)" "reaches sg u y"
      by auto
    then show "y \<in> seen \<union> {y. \<exists>x\<in>set (x # queue). reaches sg x y}"
    proof cases
      case 1
      then show ?thesis using reaches_refl by auto
    next
      case 2
      then show ?thesis by simp
    next
      case 3
      then show ?thesis by auto
    next
      case 4
      with n have "reaches sg x y" by (blast intro: reaches_source)
      then show ?thesis by auto
    qed
  qed
qed

lemma find_source_ids_collects:
  "find_source_ids sg queue seen acc = Inr (res, S) \<Longrightarrow>
   set acc = {y \<in> seen. external_input sg y} \<Longrightarrow>
   set res = {y \<in> S. external_input sg y}"
proof (induction sg queue seen acc rule: find_source_ids.induct)
  case (1 sg seen acc)
  then show ?case by simp
next
  case (2 sg x queue seen acc)
  from "2.prems"(1) obtain n where n: "get_node sg x = Inr n"
    by (cases "get_node sg x") auto
  let ?acc' = "if operation_id n = None then acc @ [x] else acc"
  have "set ?acc' = {y \<in> insert x seen. external_input sg y}"
    using "2.prems"(2) n by (auto simp: external_input_def)
  with "2.prems"(1) n "2.IH"[OF n] show ?case by simp
qed

lemma find_source_ids_succeeds:
  "(\<forall>x\<in>set queue. \<forall>y. reaches sg x y \<longrightarrow> has_node sg y) \<Longrightarrow>
   \<exists>r. find_source_ids sg queue seen acc = Inr r"
proof (induction sg queue seen acc rule: find_source_ids.induct)
  case (1 sg seen acc)
  then show ?case by simp
next
  case (2 sg x queue seen acc)
  from "2.prems" have "has_node sg x" using reaches_refl by auto
  then obtain n where n: "get_node sg x = Inr n"
    by (auto simp: has_node_def get_node_def)
  let ?seen' = "insert x seen"
  let ?queue' = "queue @ filter (\<lambda>u. u \<notin> ?seen') (source_ids n)"
  have "\<forall>u\<in>set ?queue'. \<forall>y. reaches sg u y \<longrightarrow> has_node sg y"
  proof (intro ballI allI impI)
    fix u y
    assume u: "u \<in> set ?queue'" and uy: "reaches sg u y"
    then consider "u \<in> set queue" | "u \<in> set (source_ids n)" by auto
    then show "has_node sg y"
    proof cases
      case 1
      with "2.prems" uy show ?thesis by auto
    next
      case 2
      with n uy have "reaches sg x y" by (blast intro: reaches_source)
      with "2.prems" show ?thesis by auto
    qed
  qed
  from "2.IH"[OF n this] n show ?case by simp
qed

lemma find_source_ids_from:
  assumes "find_source_ids sg [x] {} [] = Inr (res, S)"
  shows "S = {y. reaches sg x y}" and "set res = {y. reaches sg x y \<and> external_input sg y}"
proof -
  have sub: "S \<subseteq> {y. reaches sg x y}"
    using find_source_ids_reached[OF assms] by auto
  have x: "x \<in> S" using find_source_ids_seen[OF assms] by simp
  have closed: "\<forall>z\<in>S. \<forall>y. is_source_of sg z y \<longrightarrow> y \<in> S"
    using find_source_ids_closed[OF assms] by simp
  have "y \<in> S" if "reaches sg x y" for y
    using that unfolding reaches_def
    by (induction rule: rtranclp_induct) (use x closed in auto)
  with sub show S: "S = {y. reaches sg x y}" by auto
  have "set res = {y \<in> S. external_input sg y}"
    using find_source_ids_collects[OF assms] by simp
  with S show "set res = {y. reaches sg x y \<and> external_input sg y}" by auto
qed
lemma sources_closed_reaches:
  assumes "sources_closed g" and "has_node g x" and "reaches g x y"
  shows "has_node g y"
  using assms(3) unfolding reaches_def
proof (induction rule: rtranclp_induct)
  case base
  show ?case by (rule assms(2))
next
  case (step y z)
  from step.hyps(2) obtain n where n: "map_of (nodes_by_id g) y = Some n" "z \<in> set (source_ids n)"
    by (auto simp: is_source_of_def get_node_def split: option.splits)
  from n(1) have "(y, n) \<in> set (nodes_by_id g)" by (rule map_of_SomeD)
  with assms(1) n(2) show ?case
    by (auto simp: sources_closed_def list_all_iff)
qed

lemma add_node_get_node:
  assumes "add_node g i opn srcs = Inr g'"
  shows "\<exists>n. get_node g' i = Inr n \<and> data_item_id n = i \<and> operation_id n = opn
            \<and> source_ids n = srcs"
proof -
  from assms have absent: "map_of (nodes_by_id g) i = None"
    and g': "nodes_by_id g' = foldl (\<lambda>ns s. add_derived i s ns)
        (nodes_by_id g @ [(i, \<lparr>data_item_id = i, operation_id = opn, source_ids = srcs,
                               derived_ids = []\<rparr>)]) srcs"
    by (auto simp: add_node_def has_node_def Let_def split: if_splits)
  show ?thesis
    by (simp add: get_node_def g' map_of_foldl_add_derived map_add_def absent)
qed

lemma add_prov_from_sub_tracer_single:
  assumes shared: "store t = store sub_tracer"
    and fresh: "\<not> has_sub_prov_tracer t (op_uid opd)"
    and new: "\<not> has_prov t (uid d)"
    and inner: "has_node (graph sub_tracer) (uid d)"
    and bfs: "find_source_ids (graph sub_tracer) [uid d] {} [] = Inr (srcs, S)"
  shows "\<exists>h' t' node. add_prov_from_sub_tracer h t [d] opd sub_tracer = (Inr (), h', t')
          \<and> map fst (nodes_by_id (graph t')) = map fst (nodes_by_id (graph t)) @ [uid d]
          \<and> get_node (graph t') (uid d) = Inr node
          \<and> data_item_id node = uid d \<and> operation_id node = Some (op_uid opd)
          \<and> source_ids node = srcs"
proof -
  let ?g = "ProvGraph (nodes_by_id (graph t))
              (sub_graphs_by_op_id (graph t) @ [(op_uid opd, graph sub_tracer)])"
  have no: "\<not> has_node ?g (uid d)" using new by (simp add: has_prov_def has_node_def)
  then obtain g' where g': "add_node ?g (uid d) (Some (op_uid opd)) srcs = Inr g'"
    using add_node_succeeds by blast
  have item: "add_prov_from_sub_tracer_for_data_item ?g (uid d) (op_uid opd) (graph sub_tracer)
                = (Inr (), g')"
    using no inner bfs g'
    by (simp del: find_source_ids.simps add: add_prov_from_sub_tracer_for_data_item_def)
  have run: "add_prov_from_sub_tracer h t [d] opd sub_tracer =
      (Inr (), h(store t := store_op_desc (h (store t)) opd), t\<lparr>graph := g'\<rparr>)"
    using shared fresh no item
    by (simp del: find_source_ids.simps
          add: add_prov_from_sub_tracer_def add_sub_graph_def has_sub_prov_tracer_def Let_def)
  have keys: "map fst (nodes_by_id g') = map fst (nodes_by_id (graph t)) @ [uid d]"
    using add_node_keys[OF g'] by simp
  from add_node_get_node[OF g'] obtain node where
    "get_node g' (uid d) = Inr node" "data_item_id node = uid d"
    "operation_id node = Some (op_uid opd)" "source_ids node = srcs" by blast
  with run keys show ?thesis by simp
qed

text \<open>
  Claim C1. Let the parent tracer share the sub-tracer's store, have no sub-graph for the
  composite operation and no node for the output item, and let every id reachable
  backward from the output in the sub-graph have a node there. Then
  \<open>add_prov_from_sub_tracer\<close> succeeds and adds exactly one node to the parent graph,
  the node of the output, with the composite operation as its operation; the ids in its
  \<open>source_ids\<close> are exactly the ids reachable backward from the output whose sub-graph
  node has no operation. So no id of an item derived inside the sub-pipeline is among
  them.
\<close>

theorem sub_tracer_collapse:
  assumes "store t = store sub_tracer"
    and "\<not> has_sub_prov_tracer t (op_uid opd)"
    and "\<not> has_prov t (uid d)"
    and "\<forall>y. reaches (graph sub_tracer) (uid d) y \<longrightarrow> has_node (graph sub_tracer) y"
  shows "\<exists>h' t' node. add_prov_from_sub_tracer h t [d] opd sub_tracer = (Inr (), h', t')
          \<and> map fst (nodes_by_id (graph t')) = map fst (nodes_by_id (graph t)) @ [uid d]
          \<and> get_node (graph t') (uid d) = Inr node
          \<and> data_item_id node = uid d \<and> operation_id node = Some (op_uid opd)
          \<and> set (source_ids node) =
              {y. reaches (graph sub_tracer) (uid d) y \<and> external_input (graph sub_tracer) y}"
proof -
  have inner: "has_node (graph sub_tracer) (uid d)"
    using assms(4) reaches_refl by blast
  have "\<exists>r. find_source_ids (graph sub_tracer) [uid d] {} [] = Inr r"
    by (rule find_source_ids_succeeds) (use assms(4) in simp)
  then obtain srcs S where bfs: "find_source_ids (graph sub_tracer) [uid d] {} [] = Inr (srcs, S)"
    by (metis surj_pair)
  from add_prov_from_sub_tracer_single[OF assms(1-3) inner bfs, of h]
    find_source_ids_from(2)[OF bfs]
  show ?thesis by (metis (no_types, lifting))
qed

theorem sub_tracer_collapse_witness:
  "add_prov_from_sub_tracer (\<lambda>a. Map.empty) ex_empty_tracer [ex_out] ex_P
       \<lparr>store = 0, graph = ex_chain\<rparr>
     = (Inr (), (\<lambda>a. Map.empty)(0 := [''P'' \<mapsto> StoredOp ex_P]),
        \<lparr>store = 0,
         graph = ProvGraph [ex_node ''out'' (Some ''P'') [''in1'', ''in2'']] [(''P'', ex_chain)]\<rparr>)
   \<and> {y. reaches ex_chain ''out'' y \<and> external_input ex_chain y} = {''in1'', ''in2''}"
proof -
  let ?sub = "\<lparr>store = 0, graph = ex_chain\<rparr>"
  let ?t' = "\<lparr>store = 0,
         graph = ProvGraph [ex_node ''out'' (Some ''P'') [''in1'', ''in2'']] [(''P'', ex_chain)]\<rparr>"
  have shared: "store ex_empty_tracer = store ?sub" by (simp add: ex_empty_tracer_def)
  have fresh: "\<not> has_sub_prov_tracer ex_empty_tracer (op_uid ex_P)"
    by (simp add: ex_empty_tracer_def has_sub_prov_tracer_def has_sub_graph_def)
  have new: "\<not> has_prov ex_empty_tracer (uid ex_out)"
    by (simp add: ex_empty_tracer_def has_prov_def has_node_def)
  have "sources_closed ex_chain"
    by (simp add: sources_closed_def ex_chain_def ex_node_def has_node_def)
  moreover have "has_node ex_chain ''out''"
    by (simp add: ex_chain_def ex_node_def has_node_def)
  ultimately have closed: "\<forall>y. reaches (graph ?sub) (uid ex_out) y \<longrightarrow> has_node (graph ?sub) y"
    using sources_closed_reaches by (simp add: ex_out_def)
  have run: "add_prov_from_sub_tracer (\<lambda>a. Map.empty) ex_empty_tracer [ex_out] ex_P ?sub
     = (Inr (), (\<lambda>a. Map.empty)(0 := [''P'' \<mapsto> StoredOp ex_P]), ?t')"
    by (simp add: add_prov_from_sub_tracer_def add_sub_graph_def has_sub_graph_def
          add_prov_from_sub_tracer_for_data_item_def add_node_def has_node_def get_node_def
          store_op_desc_def ex_empty_tracer_def ex_chain_def ex_node_def ex_P_def ex_out_def)
  from sub_tracer_collapse[OF shared fresh new closed, of "\<lambda>a. Map.empty"]
  obtain h' t' node where
    r: "add_prov_from_sub_tracer (\<lambda>a. Map.empty) ex_empty_tracer [ex_out] ex_P ?sub = (Inr (), h', t')"
    and n: "get_node (graph t') (uid ex_out) = Inr node"
    and s: "set (source_ids node) =
              {y. reaches (graph ?sub) (uid ex_out) y \<and> external_input (graph ?sub) y}"
    by blast
  from r run have "t' = ?t'" by simp
  with n have "source_ids node = [''in1'', ''in2'']"
    by (auto simp: get_node_def ex_node_def ex_out_def)
  with s have "{y. reaches ex_chain ''out'' y \<and> external_input ex_chain y} = {''in1'', ''in2''}"
    by (simp add: ex_out_def)
  with run show ?thesis by simp
qed

subsection \<open>How often an external input is collected\<close>

lemma external_input_node:
  "get_node sg x = Inr n \<Longrightarrow> external_input sg x \<longleftrightarrow> operation_id n = None"
  by (simp add: external_input_def)

lemma find_source_ids_level:
  "find_source_ids sg (q @ rest) seen acc =
     (case dequeue_all sg q seen of
        Inl e \<Rightarrow> Inl e
      | Inr (new, seen') \<Rightarrow>
          find_source_ids sg (rest @ new) seen' (acc @ filter (external_input sg) q))"
proof (induction q arbitrary: rest seen acc)
  case Nil
  show ?case by simp
next
  case (Cons x q)
  show ?case
  proof (cases "get_node sg x")
    case (Inl e)
    then show ?thesis by simp
  next
    case (Inr n)
    let ?new = "filter (\<lambda>u. u \<notin> insert x seen) (source_ids n)"
    let ?acc = "if operation_id n = None then acc @ [x] else acc"
    have "find_source_ids sg ((x # q) @ rest) seen acc =
        find_source_ids sg (q @ (rest @ ?new)) (insert x seen) ?acc"
      using Inr by simp
    also have "\<dots> = (case dequeue_all sg q (insert x seen) of
        Inl e \<Rightarrow> Inl e
      | Inr (new, seen') \<Rightarrow>
          find_source_ids sg ((rest @ ?new) @ new) seen' (?acc @ filter (external_input sg) q))"
      by (rule Cons.IH)
    also have "\<dots> = (case dequeue_all sg (x # q) seen of
        Inl e \<Rightarrow> Inl e
      | Inr (new, seen') \<Rightarrow>
          find_source_ids sg (rest @ new) seen' (acc @ filter (external_input sg) (x # q)))"
      using Inr by (simp add: external_input_node split: sum.splits prod.splits)
    finally show ?thesis .
  qed
qed

lemma find_source_ids_whole_level:
  "find_source_ids sg q seen acc =
     (case dequeue_all sg q seen of
        Inl e \<Rightarrow> Inl e
      | Inr (new, seen') \<Rightarrow>
          find_source_ids sg new seen' (acc @ filter (external_input sg) q))"
  using find_source_ids_level[of sg q "[]" seen acc]
  by (simp split: sum.splits prod.splits)

lemma dequeue_all_seen:
  "dequeue_all sg q seen = Inr (new, seen') \<Longrightarrow> seen' = seen \<union> set q"
  by (induction q arbitrary: seen new) (auto split: sum.splits prod.splits)

lemma dequeue_all_sources:
  "dequeue_all sg q seen = Inr (new, seen') \<Longrightarrow>
     set new \<subseteq> (\<Union>x\<in>set q. set (sources_of sg x)) - seen"
proof (induction q arbitrary: seen new)
  case Nil
  then show ?case by simp
next
  case (Cons x q)
  from Cons.prems obtain n new1 where n: "get_node sg x = Inr n"
    and rest: "dequeue_all sg q (insert x seen) = Inr (new1, seen')"
    and new: "new = filter (\<lambda>u. u \<notin> insert x seen) (source_ids n) @ new1"
    by (auto split: sum.splits prod.splits)
  have "set (filter (\<lambda>u. u \<notin> insert x seen) (source_ids n)) \<subseteq> set (sources_of sg x) - seen"
    using n by (auto simp: sources_of_def)
  moreover have "set new1 \<subseteq> (\<Union>x\<in>set q. set (sources_of sg x)) - seen"
    using Cons.IH[OF rest] by auto
  ultimately show ?case unfolding new by auto
qed

lemma sum_list_filter_le:
  "sum_list (map f (filter P xs)) \<le> sum_list (map (f :: 'a \<Rightarrow> nat) xs)"
  by (induction xs) auto

lemma sum_list_filter_zero:
  "(\<And>x. x \<in> set xs \<Longrightarrow> \<not> P x \<Longrightarrow> f x = 0) \<Longrightarrow>
     sum_list (map f (filter P xs)) = sum_list (map (f :: 'a \<Rightarrow> nat) xs)"
  by (induction xs) auto

lemma dequeue_all_sum_le:
  "dequeue_all sg q seen = Inr (new, seen') \<Longrightarrow>
     sum_list (map f new) \<le> sum_list (map (\<lambda>x. sum_list (map (f :: string \<Rightarrow> nat) (sources_of sg x))) q)"
proof (induction q arbitrary: seen new)
  case Nil
  then show ?case by simp
next
  case (Cons x q)
  from Cons.prems obtain n new1 where n: "get_node sg x = Inr n"
    and rest: "dequeue_all sg q (insert x seen) = Inr (new1, seen')"
    and new: "new = filter (\<lambda>u. u \<notin> insert x seen) (source_ids n) @ new1"
    by (auto split: sum.splits prod.splits)
  have "sum_list (map f (filter (\<lambda>u. u \<notin> insert x seen) (source_ids n)))
          \<le> sum_list (map f (sources_of sg x))"
    using n by (simp add: sources_of_def sum_list_filter_le)
  with Cons.IH[OF rest] show ?case by (simp add: new)
qed

lemma dequeue_all_sum_eq:
  "dequeue_all sg q seen = Inr (new, seen') \<Longrightarrow> (\<And>s. s \<in> seen \<union> set q \<Longrightarrow> f s = (0::nat)) \<Longrightarrow>
     sum_list (map f new) = sum_list (map (\<lambda>x. sum_list (map f (sources_of sg x))) q)"
proof (induction q arbitrary: seen new)
  case Nil
  then show ?case by simp
next
  case (Cons x q)
  from Cons.prems(1) obtain n new1 where n: "get_node sg x = Inr n"
    and rest: "dequeue_all sg q (insert x seen) = Inr (new1, seen')"
    and new: "new = filter (\<lambda>u. u \<notin> insert x seen) (source_ids n) @ new1"
    by (auto split: sum.splits prod.splits)
  have "sum_list (map f (filter (\<lambda>u. u \<notin> insert x seen) (source_ids n)))
          = sum_list (map f (source_ids n))"
    by (rule sum_list_filter_zero) (use Cons.prems(2) in auto)
  moreover have "sum_list (map f new1) = sum_list (map (\<lambda>x. sum_list (map f (sources_of sg x))) q)"
    by (rule Cons.IH[OF rest]) (use Cons.prems(2) in auto)
  ultimately show ?case using n by (simp add: new sources_of_def)
qed


lemma count_list_sum: "(\<Sum>y\<leftarrow>xs. if y = z then 1 else 0) = count_list xs z"
  by (induction xs) auto

lemma count_list_filter: "P z \<Longrightarrow> count_list (filter P xs) z = count_list xs z"
  by (induction xs) auto

lemma count_paths_zero: "sum_list (map (\<lambda>y. count_paths g 0 y z) xs) = count_list xs z"
  by (simp add: count_list_sum)

lemma count_paths_one: "count_paths g (Suc 0) x z = count_list (sources_of g x) z"
  by (simp add: count_list_sum)

lemma count_paths_source:
  "s \<in> set (sources_of g x) \<Longrightarrow> count_paths g k s z \<le> count_paths g (Suc k) x z"
  by (simp add: member_le_sum_list)

lemma bfs_level_sum_le:
  "bfs_level sg k q seen = Inr (level, seen') \<Longrightarrow>
     sum_list (map (\<lambda>y. count_paths sg j y z) level)
       \<le> sum_list (map (\<lambda>x. count_paths sg (k + j) x z) q)"
proof (induction k arbitrary: q seen)
  case 0
  then show ?case by simp
next
  case (Suc k)
  from Suc.prems obtain new seen1 where d: "dequeue_all sg q seen = Inr (new, seen1)"
    and l: "bfs_level sg k new seen1 = Inr (level, seen')"
    by (auto split: sum.splits prod.splits)
  have "sum_list (map (\<lambda>y. count_paths sg j y z) level)
          \<le> sum_list (map (\<lambda>x. count_paths sg (k + j) x z) new)"
    by (rule Suc.IH[OF l])
  also have "\<dots> \<le> sum_list (map (\<lambda>x. sum_list (map (\<lambda>x. count_paths sg (k + j) x z)
                                   (sources_of sg x))) q)"
    by (rule dequeue_all_sum_le[OF d])
  finally show ?case by simp
qed

lemma bfs_level_count_le:
  assumes "bfs_level sg k [x] seen = Inr (level, seen')"
  shows "count_list level z \<le> count_paths sg k x z"
  using bfs_level_sum_le[OF assms, of 0 z] by (simp add: count_list_sum)

lemma bfs_level_count:
  "bfs_level sg k q seen = Inr (level, seen') \<Longrightarrow>
   (\<And>x j. x \<in> set q \<Longrightarrow> j < k \<Longrightarrow> count_paths sg j x z = 0) \<Longrightarrow>
   (\<And>s j. s \<in> seen \<Longrightarrow> j \<le> k \<Longrightarrow> count_paths sg j s z = 0) \<Longrightarrow>
     count_list level z = sum_list (map (\<lambda>x. count_paths sg k x z) q)"
proof (induction k arbitrary: q seen)
  case 0
  then show ?case by (simp add: count_list_sum)
next
  case (Suc k)
  from Suc.prems(1) obtain new seen1 where d: "dequeue_all sg q seen = Inr (new, seen1)"
    and l: "bfs_level sg k new seen1 = Inr (level, seen')"
    by (auto split: sum.splits prod.splits)
  have seen1: "seen1 = seen \<union> set q" using d by (rule dequeue_all_seen)
  have a: "count_paths sg j n z = 0" if "n \<in> set new" "j < k" for n j
  proof -
    from that(1) dequeue_all_sources[OF d] obtain x where x: "x \<in> set q" "n \<in> set (sources_of sg x)"
      by auto
    have "count_paths sg j n z \<le> count_paths sg (Suc j) x z"
      using x(2) by (rule count_paths_source)
    also have "\<dots> = 0" using Suc.prems(2)[OF x(1), of "Suc j"] that(2) by simp
    finally show ?thesis by simp
  qed
  have b: "count_paths sg j s z = 0" if "s \<in> seen1" "j \<le> k" for s j
    using that Suc.prems(2)[of s j] Suc.prems(3)[of s j] by (auto simp: seen1)
  have "count_list level z = sum_list (map (\<lambda>x. count_paths sg k x z) new)"
    using l a b by (rule Suc.IH)
  also have "\<dots> = sum_list (map (\<lambda>x. sum_list (map (\<lambda>x. count_paths sg k x z)
                                   (sources_of sg x))) q)"
    by (rule dequeue_all_sum_eq[OF d]) (use b in \<open>auto simp: seen1\<close>)
  finally show ?case by simp
qed

lemma bfs_level_seen:
  "bfs_level sg k q seen = Inr (level, seen') \<Longrightarrow> z \<in> seen' \<Longrightarrow>
     z \<in> seen \<or> (\<exists>j<k. \<exists>x\<in>set q. 0 < count_paths sg j x z)"
proof (induction k arbitrary: q seen)
  case 0
  then show ?case by simp
next
  case (Suc k)
  from Suc.prems(1) obtain new seen1 where d: "dequeue_all sg q seen = Inr (new, seen1)"
    and l: "bfs_level sg k new seen1 = Inr (level, seen')"
    by (auto split: sum.splits prod.splits)
  have seen1: "seen1 = seen \<union> set q" using d by (rule dequeue_all_seen)
  from Suc.IH[OF l Suc.prems(2)]
  consider "z \<in> seen" | "z \<in> set q" | j n where "j < k" "n \<in> set new" "0 < count_paths sg j n z"
    by (auto simp: seen1)
  then show ?case
  proof cases
    case 1
    then show ?thesis by simp
  next
    case 2
    then have "0 < count_paths sg 0 z z" "z \<in> set q" by simp_all
    then show ?thesis by blast
  next
    case 3
    from 3(2) dequeue_all_sources[OF d] obtain x where x: "x \<in> set q" "n \<in> set (sources_of sg x)"
      by auto
    have "count_paths sg j n z \<le> count_paths sg (Suc j) x z"
      using x(2) by (rule count_paths_source)
    with 3(3) have "0 < count_paths sg (Suc j) x z" by simp
    with 3(1) x(1) show ?thesis by (metis Suc_less_eq)
  qed
qed

lemma dequeue_all_count_seen:
  assumes "dequeue_all sg q seen = Inr (new, seen')" and "z \<in> seen"
  shows "count_list new z = 0"
  using dequeue_all_sources[OF assms(1)] assms(2) by (auto simp: count_list_0_iff)

lemma dequeue_all_count_before:
  "dequeue_all sg q seen = Inr (new, seen') \<Longrightarrow> z \<notin> seen \<Longrightarrow> z \<in> set q \<Longrightarrow>
     count_list new z =
       sum_list (map (\<lambda>x. count_list (sources_of sg x) z) (takeWhile (\<lambda>x. x \<noteq> z) q))"
proof (induction q arbitrary: seen new)
  case Nil
  then show ?case by simp
next
  case (Cons x q)
  from Cons.prems(1) obtain n new1 where n: "get_node sg x = Inr n"
    and rest: "dequeue_all sg q (insert x seen) = Inr (new1, seen')"
    and new: "new = filter (\<lambda>u. u \<notin> insert x seen) (source_ids n) @ new1"
    by (auto split: sum.splits prod.splits)
  show ?case
  proof (cases "x = z")
    case True
    have "count_list new1 z = 0"
      using rest by (rule dequeue_all_count_seen) (simp add: True)
    moreover have "count_list (filter (\<lambda>u. u \<notin> insert x seen) (source_ids n)) z = 0"
      by (simp add: True count_list_0_iff)
    ultimately show ?thesis by (simp add: new True)
  next
    case False
    have "count_list (filter (\<lambda>u. u \<notin> insert x seen) (source_ids n)) z = count_list (source_ids n) z"
      using False Cons.prems(2) by (intro count_list_filter) simp
    moreover have "count_list new1 z =
       sum_list (map (\<lambda>x. count_list (sources_of sg x) z) (takeWhile (\<lambda>x. x \<noteq> z) q))"
      by (rule Cons.IH[OF rest]) (use False Cons.prems in auto)
    ultimately show ?thesis using False n by (simp add: new sources_of_def)
  qed
qed


lemma sum_list_takeWhile_le:
  "sum_list (map f (takeWhile P xs)) \<le> sum_list (map (f :: 'a \<Rightarrow> nat) xs)"
  by (induction xs) auto

lemma find_source_ids_count_ge:
  "find_source_ids sg q seen acc = Inr (res, S) \<Longrightarrow> external_input sg z \<Longrightarrow>
     count_list acc z + count_list q z \<le> count_list res z"
proof (induction sg q seen acc rule: find_source_ids.induct)
  case (1 sg seen acc)
  then show ?case by simp
next
  case (2 sg x queue seen acc)
  from "2.prems"(1) obtain n where n: "get_node sg x = Inr n"
    by (cases "get_node sg x") auto
  let ?acc = "if operation_id n = None then acc @ [x] else acc"
  let ?q = "queue @ filter (\<lambda>u. u \<notin> insert x seen) (source_ids n)"
  have "count_list ?acc z + count_list ?q z \<le> count_list res z"
    using "2.IH"[OF n] "2.prems" n by simp
  moreover have "count_list acc z + count_list (x # queue) z \<le> count_list ?acc z + count_list ?q z"
    using "2.prems"(2) n by (auto simp: external_input_def)
  ultimately show ?case by linarith
qed

lemma find_source_ids_count_seen:
  "find_source_ids sg q seen acc = Inr (res, S) \<Longrightarrow> external_input sg z \<Longrightarrow> z \<in> seen \<Longrightarrow>
     count_list res z = count_list acc z + count_list q z"
proof (induction sg q seen acc rule: find_source_ids.induct)
  case (1 sg seen acc)
  then show ?case by simp
next
  case (2 sg x queue seen acc)
  from "2.prems"(1) obtain n where n: "get_node sg x = Inr n"
    by (cases "get_node sg x") auto
  let ?acc = "if operation_id n = None then acc @ [x] else acc"
  let ?new = "filter (\<lambda>u. u \<notin> insert x seen) (source_ids n)"
  have "count_list res z = count_list ?acc z + count_list (queue @ ?new) z"
    using "2.IH"[OF n] "2.prems" n by simp
  moreover have "count_list ?new z = 0"
    using "2.prems"(3) by (simp add: count_list_0_iff)
  moreover have "count_list ?acc z + count_list queue z = count_list acc z + count_list (x # queue) z"
    using "2.prems"(2) n by (auto simp: external_input_def)
  ultimately show ?case by simp
qed

lemma find_source_ids_bfs_level:
  "find_source_ids sg q seen acc = Inr (res, S) \<Longrightarrow>
   (\<And>x j. x \<in> set q \<Longrightarrow> j < k \<Longrightarrow> count_paths sg j x z = 0) \<Longrightarrow>
     \<exists>level seen' acc'. bfs_level sg k q seen = Inr (level, seen')
        \<and> find_source_ids sg level seen' acc' = Inr (res, S)
        \<and> count_list acc' z = count_list acc z"
proof (induction k arbitrary: q seen acc)
  case 0
  then have "bfs_level sg 0 q seen = Inr (q, seen) \<and> find_source_ids sg q seen acc = Inr (res, S)
      \<and> count_list acc z = count_list acc z" by simp
  then show ?case by blast
next
  case (Suc k)
  have step: "find_source_ids sg q seen acc =
     (case dequeue_all sg q seen of
        Inl e \<Rightarrow> Inl e
      | Inr (new, seen') \<Rightarrow>
          find_source_ids sg new seen' (acc @ filter (external_input sg) q))"
    by (rule find_source_ids_whole_level)
  with Suc.prems(1) obtain new seen1 where d: "dequeue_all sg q seen = Inr (new, seen1)"
    and f: "find_source_ids sg new seen1 (acc @ filter (external_input sg) q) = Inr (res, S)"
    by (auto split: sum.splits prod.splits)
  have a: "count_paths sg j n z = 0" if "n \<in> set new" "j < k" for n j
  proof -
    from that(1) dequeue_all_sources[OF d] obtain x where x: "x \<in> set q" "n \<in> set (sources_of sg x)"
      by auto
    have "count_paths sg j n z \<le> count_paths sg (Suc j) x z"
      using x(2) by (rule count_paths_source)
    also have "\<dots> = 0" using Suc.prems(2)[OF x(1), of "Suc j"] that(2) by simp
    finally show ?thesis by simp
  qed
  from Suc.IH[OF f a] obtain level seen' acc' where
    l: "bfs_level sg k new seen1 = Inr (level, seen')"
    and r: "find_source_ids sg level seen' acc' = Inr (res, S)"
    and c: "count_list acc' z = count_list (acc @ filter (external_input sg) q) z"
    by blast
  have "z \<notin> set q"
  proof
    assume "z \<in> set q"
    from Suc.prems(2)[OF this, of 0] show False by simp
  qed
  then have "count_list (filter (external_input sg) q) z = 0" by (simp add: count_list_0_iff)
  with c have c': "count_list acc' z = count_list acc z" by simp
  have "bfs_level sg (Suc k) q seen = Inr (level, seen')" using d l by simp
  with r c' show ?case by blast
qed

lemma find_source_ids_count:
  assumes run: "find_source_ids sg [out] {} [] = Inr (res, S)"
    and ext: "external_input sg z"
    and short: "\<And>j. j < k \<Longrightarrow> count_paths sg j out z = 0"
  shows "\<exists>level seen'. bfs_level sg k [out] {} = Inr (level, seen')
           \<and> count_list level z = count_paths sg k out z
           \<and> count_paths sg k out z \<le> count_list res z
           \<and> (0 < count_paths sg k out z \<longrightarrow>
                count_list res z = count_paths sg k out z
                  + sum_list (map (\<lambda>x. count_list (sources_of sg x) z)
                              (takeWhile (\<lambda>x. x \<noteq> z) level))
              \<and> count_list res z \<le> count_paths sg k out z + count_paths sg (Suc k) out z)"
proof -
  from find_source_ids_bfs_level[OF run, of k z] short obtain level seen' acc' where
    l: "bfs_level sg k [out] {} = Inr (level, seen')"
    and r: "find_source_ids sg level seen' acc' = Inr (res, S)"
    and c: "count_list acc' z = 0"
    by auto
  have n: "count_list level z = count_paths sg k out z"
    using bfs_level_count[OF l, of z] short by simp
  have ge: "count_paths sg k out z \<le> count_list res z"
    using find_source_ids_count_ge[OF r ext] n c by simp
  have more: "count_list res z = count_paths sg k out z
                  + sum_list (map (\<lambda>x. count_list (sources_of sg x) z)
                              (takeWhile (\<lambda>x. x \<noteq> z) level))
              \<and> count_list res z \<le> count_paths sg k out z + count_paths sg (Suc k) out z"
    if pos: "0 < count_paths sg k out z"
  proof -
    have inl: "z \<in> set level"
    proof (rule ccontr)
      assume "z \<notin> set level"
      then have "count_list level z = 0" by simp
      with pos n show False by simp
    qed
    have unseen: "z \<notin> seen'"
    proof
      assume "z \<in> seen'"
      from bfs_level_seen[OF l this] short show False by auto
    qed
    have step: "find_source_ids sg level seen' acc' =
       (case dequeue_all sg level seen' of
          Inl e \<Rightarrow> Inl e
        | Inr (new, seen1) \<Rightarrow>
            find_source_ids sg new seen1 (acc' @ filter (external_input sg) level))"
      by (rule find_source_ids_whole_level)
    with r obtain new seen1 where d: "dequeue_all sg level seen' = Inr (new, seen1)"
      and f: "find_source_ids sg new seen1 (acc' @ filter (external_input sg) level) = Inr (res, S)"
      by (auto split: sum.splits prod.splits)
    have "z \<in> seen1" using dequeue_all_seen[OF d] inl by simp
    from find_source_ids_count_seen[OF f ext this]
    have "count_list res z = count_list level z + count_list new z"
      using c ext by (simp add: count_list_filter)
    moreover have before: "count_list new z =
        sum_list (map (\<lambda>x. count_list (sources_of sg x) z) (takeWhile (\<lambda>x. x \<noteq> z) level))"
      using d unseen inl by (rule dequeue_all_count_before)
    moreover have "sum_list (map (\<lambda>x. count_list (sources_of sg x) z) (takeWhile (\<lambda>x. x \<noteq> z) level))
        \<le> sum_list (map (\<lambda>x. count_list (sources_of sg x) z) level)"
      by (rule sum_list_takeWhile_le)
    moreover have "sum_list (map (\<lambda>x. count_list (sources_of sg x) z) level)
        = sum_list (map (\<lambda>x. count_paths sg (Suc 0) x z) level)"
      by (simp only: count_paths_one)
    moreover have "sum_list (map (\<lambda>x. count_paths sg (Suc 0) x z) level)
        \<le> sum_list (map (\<lambda>x. count_paths sg (k + Suc 0) x z) [out])"
      by (rule bfs_level_sum_le[OF l])
    ultimately show ?thesis using n by simp
  qed
  show ?thesis
    by (rule exI[of _ level], rule exI[of _ seen']) (use l n ge more in blast)
qed


lemma is_source_of_sources: "is_source_of g x y \<longleftrightarrow> y \<in> set (sources_of g x)"
  by (cases "get_node g x") (simp_all add: is_source_of_def sources_of_def)

lemma sum_list_member_le: "y \<in> set xs \<Longrightarrow> f y \<le> sum_list (map (f :: 'a \<Rightarrow> nat) xs)"
  by (induction xs) auto

lemma sum_list_pos_member:
  "0 < sum_list (map (f :: 'a \<Rightarrow> nat) xs) \<Longrightarrow> \<exists>y\<in>set xs. 0 < f y"
  by (induction xs) auto

lemma sum_list_two:
  "y \<in> set xs \<Longrightarrow> y' \<in> set xs \<Longrightarrow> y \<noteq> y' \<Longrightarrow> f y + f y' \<le> sum_list (map (f :: 'a \<Rightarrow> nat) xs)"
proof (induction xs)
  case Nil
  then show ?case by simp
next
  case (Cons x xs)
  consider "x = y" "y' \<in> set xs" | "x = y'" "y \<in> set xs" | "y \<in> set xs" "y' \<in> set xs"
    using Cons.prems by auto
  then show ?case
  proof cases
    case 1
    then show ?thesis using sum_list_member_le[of y' xs f] by simp
  next
    case 2
    then show ?thesis using sum_list_member_le[of y xs f] by simp
  next
    case 3
    then have "f y + f y' \<le> sum_list (map f xs)" using Cons.IH Cons.prems(3) by simp
    then show ?thesis by simp
  qed
qed

lemma is_path_count_paths:
  "is_path g p \<Longrightarrow> 0 < count_paths g (length p - 1) (hd p) (last p)"
proof (induction g p rule: is_path.induct)
  case (1 g)
  then show ?case by simp
next
  case (2 g x)
  show ?case by simp
next
  case (3 g x y ys)
  then have "y \<in> set (sources_of g x)" and "0 < count_paths g (length ys) y (last (y # ys))"
    by (simp_all add: is_source_of_sources)
  then have "0 < count_paths g (Suc (length ys)) x (last (y # ys))"
    using count_paths_source[of y g x "length ys" "last (y # ys)"] by simp
  then show ?case by simp
qed

lemma count_paths_is_path:
  "0 < count_paths g k x z \<Longrightarrow> \<exists>p. is_path g p \<and> hd p = x \<and> last p = z \<and> length p = Suc k"
proof (induction k arbitrary: x)
  case 0
  then have "is_path g [x] \<and> hd [x] = x \<and> last [x] = z \<and> length [x] = Suc 0"
    by (simp split: if_splits)
  then show ?case by blast
next
  case (Suc k)
  then have "\<exists>s\<in>set (sources_of g x). 0 < count_paths g k s z"
    using sum_list_pos_member[of "\<lambda>s. count_paths g k s z" "sources_of g x"] by simp
  then obtain s where s: "s \<in> set (sources_of g x)" "0 < count_paths g k s z" by blast
  from Suc.IH[OF s(2)] obtain p where p: "is_path g p" "hd p = s" "last p = z" "length p = Suc k"
    by blast
  then obtain ps where ps: "p = s # ps" by (cases p) auto
  have "is_path g (x # p) \<and> hd (x # p) = x \<and> last (x # p) = z \<and> length (x # p) = Suc (Suc k)"
    using p s(1) by (simp add: ps is_source_of_sources)
  then show ?case by blast
qed

lemma two_paths_count_paths:
  "is_path g p \<Longrightarrow> is_path g q \<Longrightarrow> hd q = hd p \<Longrightarrow> last q = last p \<Longrightarrow> length q = length p \<Longrightarrow>
   q \<noteq> p \<Longrightarrow> 2 \<le> count_paths g (length p - 1) (hd p) (last p)"
proof (induction g p arbitrary: q rule: is_path.induct)
  case (1 g)
  then show ?case by simp
next
  case (2 g x)
  then obtain x' where "q = [x']" by (cases q) auto
  with 2 show ?case by simp
next
  case (3 g x y ys)
  from "3.prems"(2,3,5) obtain y' ys' where q: "q = x # y' # ys'" "length ys' = length ys"
    by (cases q; cases "tl q") auto
  let ?z = "last (y # ys)"
  have y: "y \<in> set (sources_of g x)" and py: "is_path g (y # ys)"
    using "3.prems"(1) by (simp_all add: is_source_of_sources)
  have y': "y' \<in> set (sources_of g x)" and py': "is_path g (y' # ys')"
    using "3.prems"(2) by (simp_all add: q is_source_of_sources)
  have last: "last (y' # ys') = ?z" using "3.prems"(4) by (simp add: q)
  have "2 \<le> count_paths g (Suc (length ys)) x ?z"
  proof (cases "y' = y")
    case True
    have "2 \<le> count_paths g (length (y # ys) - 1) (hd (y # ys)) (last (y # ys))"
      using "3.IH"[of "y' # ys'"] py py' last True q "3.prems"(6) by simp
    then have "2 \<le> count_paths g (length ys) y ?z" by simp
    with count_paths_source[OF y, of "length ys" ?z] show ?thesis by simp
  next
    case False
    have "0 < count_paths g (length ys) y ?z"
      using is_path_count_paths[OF py] by simp
    moreover have "0 < count_paths g (length ys) y' ?z"
      using is_path_count_paths[OF py'] last q(2) by simp
    moreover have "count_paths g (length ys) y ?z + count_paths g (length ys) y' ?z
        \<le> count_paths g (Suc (length ys)) x ?z"
      using sum_list_two[OF y y', of "\<lambda>s. count_paths g (length ys) s ?z"] False by simp
    ultimately show ?thesis by simp
  qed
  then show ?case by simp
qed

lemma shortest_path_count_paths:
  assumes "\<forall>q. is_path g q \<and> hd q = x \<and> last q = z \<longrightarrow> length p \<le> length q"
    and "j < length p - 1"
  shows "count_paths g j x z = 0"
proof (rule ccontr)
  assume "count_paths g j x z \<noteq> 0"
  then have "0 < count_paths g j x z" by simp
  from count_paths_is_path[OF this] obtain q where
    "is_path g q" "hd q = x" "last q = z" "length q = Suc j" by blast
  with assms show False by fastforce
qed

lemma no_shorter_path:
  assumes "\<And>j. j < k \<Longrightarrow> count_paths g j x z = 0"
    and "is_path g q" and "hd q = x" and "last q = z"
  shows "Suc k \<le> length q"
proof (rule ccontr)
  assume "\<not> Suc k \<le> length q"
  moreover have "0 < length q" using assms(2) by (cases q) auto
  ultimately have "length q - 1 < k" by arith
  from assms(1)[OF this] is_path_count_paths[OF assms(2)] assms(3,4) show False by simp
qed

text \<open>
  Claim C9, amended. Let the output reach the external input \<open>x\<close> in the sub-graph, where
  every id reachable from the output has a node, and let \<open>p\<close> be a backward path of the
  shortest length from the output to \<open>x\<close>. Then the node that \<open>add_prov_from_sub_tracer\<close>
  adds to the parent graph lists \<open>x\<close>

  \<^item> at least once for each backward path of the shortest length, so more than once as soon
    as a second, distinct path has the shortest length: a diamond with branches of equal
    length, at any depth and whatever else the output derives from;

  \<^item> at most once for each backward path that has the shortest length or one edge more: a
    path that is two or more edges longer than the shortest adds no occurrence;

  \<^item> exactly once for each path of the shortest length, plus once for each occurrence of
    \<open>x\<close> among the source ids of the ids that stand before \<open>x\<close> in the queue when the
    traversal reaches the level of \<open>x\<close>: these are dequeued before \<open>x\<close> is marked as seen,
    so each of them enqueues \<open>x\<close> again.
\<close>

theorem diamond_sources_repeated:
  assumes "store t = store sub_tracer"
    and "\<not> has_sub_prov_tracer t (op_uid opd)"
    and "\<not> has_prov t (uid d)"
    and "\<forall>y. reaches (graph sub_tracer) (uid d) y \<longrightarrow> has_node (graph sub_tracer) y"
    and "external_input (graph sub_tracer) x"
    and "is_path (graph sub_tracer) p" and "hd p = uid d" and "last p = x"
    and "\<forall>q. is_path (graph sub_tracer) q \<and> hd q = uid d \<and> last q = x \<longrightarrow> length p \<le> length q"
  shows "\<exists>h' t' node level seen.
            add_prov_from_sub_tracer h t [d] opd sub_tracer = (Inr (), h', t')
          \<and> get_node (graph t') (uid d) = Inr node
          \<and> count_paths (graph sub_tracer) (length p - 1) (uid d) x \<le> count_list (source_ids node) x
          \<and> (\<forall>q. is_path (graph sub_tracer) q \<and> hd q = uid d \<and> last q = x
                  \<and> length q = length p \<and> q \<noteq> p \<longrightarrow> 2 \<le> count_list (source_ids node) x)
          \<and> count_list (source_ids node) x
               \<le> count_paths (graph sub_tracer) (length p - 1) (uid d) x
                 + count_paths (graph sub_tracer) (length p) (uid d) x
          \<and> bfs_level (graph sub_tracer) (length p - 1) [uid d] {} = Inr (level, seen)
          \<and> count_list (source_ids node) x
               = count_paths (graph sub_tracer) (length p - 1) (uid d) x
                 + sum_list (map (\<lambda>y. count_list (sources_of (graph sub_tracer) y) x)
                             (takeWhile (\<lambda>y. y \<noteq> x) level))"
proof -
  let ?sg = "graph sub_tracer"
  let ?k = "length p - 1"
  have inner: "has_node ?sg (uid d)"
    using assms(4) reaches_refl by blast
  have "\<exists>r. find_source_ids ?sg [uid d] {} [] = Inr r"
    by (rule find_source_ids_succeeds) (use assms(4) in simp)
  then obtain srcs S where bfs: "find_source_ids ?sg [uid d] {} [] = Inr (srcs, S)"
    by (metis surj_pair)
  have short: "count_paths ?sg j (uid d) x = 0" if "j < ?k" for j
    using shortest_path_count_paths[OF assms(9) that] .
  have pos: "0 < count_paths ?sg ?k (uid d) x"
    using is_path_count_paths[OF assms(6)] assms(7,8) by simp
  have len: "Suc ?k = length p" using assms(6) by (cases p) auto
  from find_source_ids_count[OF bfs assms(5) short, of ?k] obtain level seen where
    all: "bfs_level ?sg ?k [uid d] {} = Inr (level, seen)
           \<and> count_list level x = count_paths ?sg ?k (uid d) x
           \<and> count_paths ?sg ?k (uid d) x \<le> count_list srcs x
           \<and> (0 < count_paths ?sg ?k (uid d) x \<longrightarrow>
                count_list srcs x = count_paths ?sg ?k (uid d) x
                  + sum_list (map (\<lambda>y. count_list (sources_of ?sg y) x)
                              (takeWhile (\<lambda>y. y \<noteq> x) level))
              \<and> count_list srcs x \<le> count_paths ?sg ?k (uid d) x + count_paths ?sg (Suc ?k) (uid d) x)"
    by auto
  from all have l: "bfs_level ?sg ?k [uid d] {} = Inr (level, seen)" by simp
  from all have ge: "count_paths ?sg ?k (uid d) x \<le> count_list srcs x" by simp
  from all pos have eq: "count_list srcs x = count_paths ?sg ?k (uid d) x
                  + sum_list (map (\<lambda>y. count_list (sources_of ?sg y) x)
                              (takeWhile (\<lambda>y. y \<noteq> x) level))" by simp
  from all pos have le: "count_list srcs x
      \<le> count_paths ?sg ?k (uid d) x + count_paths ?sg (length p) (uid d) x"
    unfolding len by simp
  have two: "\<forall>q. is_path ?sg q \<and> hd q = uid d \<and> last q = x \<and> length q = length p \<and> q \<noteq> p
      \<longrightarrow> 2 \<le> count_list srcs x"
  proof (intro allI impI)
    fix q
    assume q: "is_path ?sg q \<and> hd q = uid d \<and> last q = x \<and> length q = length p \<and> q \<noteq> p"
    have "2 \<le> count_paths ?sg (length p - 1) (hd p) (last p)"
      by (rule two_paths_count_paths[OF assms(6), of q]) (use q assms(7,8) in simp_all)
    with ge show "2 \<le> count_list srcs x" by (simp add: assms(7,8))
  qed
  from add_prov_from_sub_tracer_single[OF assms(1-3) inner bfs, of h]
  obtain h' t' node where run: "add_prov_from_sub_tracer h t [d] opd sub_tracer = (Inr (), h', t')"
    and node: "get_node (graph t') (uid d) = Inr node" and srcs: "source_ids node = srcs"
    by blast
  have "add_prov_from_sub_tracer h t [d] opd sub_tracer = (Inr (), h', t')
          \<and> get_node (graph t') (uid d) = Inr node
          \<and> count_paths ?sg (length p - 1) (uid d) x \<le> count_list (source_ids node) x
          \<and> (\<forall>q. is_path ?sg q \<and> hd q = uid d \<and> last q = x
                  \<and> length q = length p \<and> q \<noteq> p \<longrightarrow> 2 \<le> count_list (source_ids node) x)
          \<and> count_list (source_ids node) x
               \<le> count_paths ?sg (length p - 1) (uid d) x + count_paths ?sg (length p) (uid d) x
          \<and> bfs_level ?sg (length p - 1) [uid d] {} = Inr (level, seen)
          \<and> count_list (source_ids node) x
               = count_paths ?sg (length p - 1) (uid d) x
                 + sum_list (map (\<lambda>y. count_list (sources_of ?sg y) x)
                             (takeWhile (\<lambda>y. y \<noteq> x) level))"
    unfolding srcs using run node ge two le l eq by (intro conjI)
  then show ?thesis by (intro exI)
qed

theorem diamond_sources_repeated_witness:
  "add_prov_from_sub_tracer (\<lambda>a. Map.empty) ex_empty_tracer [ex_out] ex_P
       \<lparr>store = 0, graph = ex_deep\<rparr>
     = (Inr (), (\<lambda>a. Map.empty)(0 := [''P'' \<mapsto> StoredOp ex_P]),
        \<lparr>store = 0,
         graph = ProvGraph [ex_node ''out'' (Some ''P'') [''y'', ''x'', ''x'']] [(''P'', ex_deep)]\<rparr>)
   \<and> is_path ex_deep [''out'', ''m'', ''a'', ''x'']
   \<and> is_path ex_deep [''out'', ''m'', ''b'', ''x'']
   \<and> count_paths ex_deep 3 ''out'' ''x'' = 2
   \<and> count_paths ex_deep 4 ''out'' ''x'' = 0
   \<and> count_list [''y'', ''x'', ''x''] ''x'' = 2"
proof -
  let ?sub = "\<lparr>store = 0, graph = ex_deep\<rparr>"
  let ?p = "[''out'', ''m'', ''a'', ''x'']"
  let ?q = "[''out'', ''m'', ''b'', ''x'']"
  let ?t' = "\<lparr>store = 0,
         graph = ProvGraph [ex_node ''out'' (Some ''P'') [''y'', ''x'', ''x'']] [(''P'', ex_deep)]\<rparr>"
  have shared: "store ex_empty_tracer = store ?sub" by (simp add: ex_empty_tracer_def)
  have fresh: "\<not> has_sub_prov_tracer ex_empty_tracer (op_uid ex_P)"
    by (simp add: ex_empty_tracer_def has_sub_prov_tracer_def has_sub_graph_def)
  have new: "\<not> has_prov ex_empty_tracer (uid ex_out)"
    by (simp add: ex_empty_tracer_def has_prov_def has_node_def)
  have "sources_closed ex_deep"
    by (simp add: sources_closed_def ex_deep_def ex_node_def has_node_def)
  moreover have "has_node ex_deep ''out''"
    by (simp add: ex_deep_def ex_node_def has_node_def)
  ultimately have closed: "\<forall>y. reaches (graph ?sub) (uid ex_out) y \<longrightarrow> has_node (graph ?sub) y"
    using sources_closed_reaches by (simp add: ex_out_def)
  have ext: "external_input (graph ?sub) ''x''"
    by (simp add: external_input_def ex_deep_def ex_node_def get_node_def)
  have p: "is_path (graph ?sub) ?p" and q: "is_path (graph ?sub) ?q"
    by (simp_all add: is_source_of_def ex_deep_def ex_node_def get_node_def)
  have hd: "hd ?p = uid ex_out" and last: "last ?p = ''x''" by (simp_all add: ex_out_def)
  have counts: "count_paths ex_deep 0 ''out'' ''x'' = 0" "count_paths ex_deep 1 ''out'' ''x'' = 0"
    "count_paths ex_deep 2 ''out'' ''x'' = 0" "count_paths ex_deep 3 ''out'' ''x'' = 2"
    "count_paths ex_deep 4 ''out'' ''x'' = 0"
    by (simp_all add: eval_nat_numeral sources_of_def ex_deep_def ex_node_def get_node_def)
  have "count_paths ex_deep j ''out'' ''x'' = 0" if "j < 3" for j
  proof -
    from that consider "j = 0" | "j = 1" | "j = 2" by linarith
    then show ?thesis using counts by cases simp_all
  qed
  then have "length [''out'', ''m'', ''a'', ''x''] \<le> length r"
    if "is_path ex_deep r" "hd r = ''out''" "last r = ''x''" for r
    using no_shorter_path[of 3 ex_deep "''out''" "''x''" r] that by simp
  then have shortest: "\<forall>r. is_path (graph ?sub) r \<and> hd r = uid ex_out \<and> last r = ''x''
      \<longrightarrow> length ?p \<le> length r"
    by (simp add: ex_out_def)
  have run: "add_prov_from_sub_tracer (\<lambda>a. Map.empty) ex_empty_tracer [ex_out] ex_P ?sub
     = (Inr (), (\<lambda>a. Map.empty)(0 := [''P'' \<mapsto> StoredOp ex_P]), ?t')"
    by (simp add: add_prov_from_sub_tracer_def add_sub_graph_def has_sub_graph_def
          add_prov_from_sub_tracer_for_data_item_def add_node_def has_node_def get_node_def
          store_op_desc_def ex_empty_tracer_def ex_deep_def ex_node_def ex_P_def ex_out_def)
  from diamond_sources_repeated[OF shared fresh new closed ext p hd last shortest,
      of "\<lambda>a. Map.empty"]
  obtain h' t' node where
    r: "add_prov_from_sub_tracer (\<lambda>a. Map.empty) ex_empty_tracer [ex_out] ex_P ?sub = (Inr (), h', t')"
    and n: "get_node (graph t') (uid ex_out) = Inr node"
    and two: "\<forall>r. is_path (graph ?sub) r \<and> hd r = uid ex_out \<and> last r = ''x''
                  \<and> length r = length ?p \<and> r \<noteq> ?p \<longrightarrow> 2 \<le> count_list (source_ids node) ''x''"
    by blast
  have "is_path (graph ?sub) ?q \<and> hd ?q = uid ex_out \<and> last ?q = ''x''
      \<and> length ?q = length ?p \<and> ?q \<noteq> ?p"
    using q by (simp add: ex_out_def)
  with two have "2 \<le> count_list (source_ids node) ''x''" by blast
  moreover from r run have "t' = ?t'" by simp
  with n have "source_ids node = [''y'', ''x'', ''x'']"
    by (auto simp: get_node_def ex_node_def ex_out_def)
  ultimately have "count_list [''y'', ''x'', ''x''] ''x'' = 2" by simp
  with run p q counts show ?thesis by simp
qed

text \<open>
  A path that is one edge longer than the shortest adds an occurrence when its last inner
  id is dequeued before the external input: in \<open>ex_long_first\<close> the output lists \<open>b\<close>
  before \<open>a\<close>, so \<open>c\<close> stands before \<open>x\<close> in the queue of the second level and enqueues
  \<open>x\<close> again.
\<close>

lemma long_path_first:
  "is_path ex_long_first [''out'', ''a'', ''x'']
   \<and> is_path ex_long_first [''out'', ''b'', ''c'', ''x'']
   \<and> bfs_level ex_long_first 2 [''out''] {} = Inr ([''c'', ''x''], {''a'', ''b'', ''out''})
   \<and> add_prov_from_sub_tracer (\<lambda>a. Map.empty) ex_empty_tracer [ex_out] ex_P
       \<lparr>store = 0, graph = ex_long_first\<rparr>
     = (Inr (), (\<lambda>a. Map.empty)(0 := [''P'' \<mapsto> StoredOp ex_P]),
        \<lparr>store = 0,
         graph = ProvGraph [ex_node ''out'' (Some ''P'') [''x'', ''x'']] [(''P'', ex_long_first)]\<rparr>)"
  by (simp add: is_source_of_def eval_nat_numeral
        add_prov_from_sub_tracer_def add_sub_graph_def has_sub_graph_def
        add_prov_from_sub_tracer_for_data_item_def add_node_def has_node_def get_node_def
        store_op_desc_def ex_empty_tracer_def ex_long_first_def ex_node_def ex_P_def ex_out_def)

text \<open>
  Claim C9 as stated fails when the two paths have different lengths. In \<open>ex_skewed\<close>
  the output reaches the external input \<open>x\<close> through \<open>a\<close> and through \<open>b\<close>, \<open>c\<close>; \<open>x\<close> is
  dequeued, and marked as seen, before \<open>c\<close> is, so \<open>c\<close> does not enqueue it again and the
  new node lists \<open>x\<close> once.
\<close>

theorem diamond_sources_counterexample:
  "is_path ex_skewed [''out'', ''a'', ''x'']
   \<and> is_path ex_skewed [''out'', ''b'', ''c'', ''x'']
   \<and> external_input ex_skewed ''x''
   \<and> add_prov_from_sub_tracer (\<lambda>a. Map.empty) ex_empty_tracer [ex_out] ex_P
       \<lparr>store = 0, graph = ex_skewed\<rparr>
     = (Inr (), (\<lambda>a. Map.empty)(0 := [''P'' \<mapsto> StoredOp ex_P]),
        \<lparr>store = 0,
         graph = ProvGraph [ex_node ''out'' (Some ''P'') [''x'']] [(''P'', ex_skewed)]\<rparr>)"
  by (simp add: is_source_of_def external_input_def
        add_prov_from_sub_tracer_def add_sub_graph_def has_sub_graph_def
        add_prov_from_sub_tracer_for_data_item_def add_node_def has_node_def get_node_def
        store_op_desc_def ex_empty_tracer_def ex_skewed_def ex_node_def ex_P_def ex_out_def)

section \<open>Properties of the queries\<close>

lemma holds_itemD:
  "holds_item st i \<Longrightarrow> \<exists>d. st i = Some (StoredItem d) \<and> uid d = i"
  by (auto simp: holds_item_def split: option.splits stored.splits)

lemma get_data_items_resolved:
  "list_all (holds_item st) is \<Longrightarrow>
     \<exists>ds. get_data_items st is = Inr ds \<and> map uid ds = is
        \<and> (\<forall>d\<in>set ds. st (uid d) = Some (StoredItem d))"
proof (induction "is")
  case Nil
  then show ?case by simp
next
  case (Cons i "is")
  from Cons.prems obtain d where d: "st i = Some (StoredItem d)" "uid d = i"
    using holds_itemD by auto
  from Cons.prems Cons.IH obtain ds where ds: "get_data_items st is = Inr ds" "map uid ds = is"
      "\<forall>d\<in>set ds. st (uid d) = Some (StoredItem d)" by auto
  from d ds show ?case by (simp add: get_data_item_def)
qed

lemma get_node_op_desc_resolved:
  "holds_op st opn \<Longrightarrow>
     \<exists>opd. get_node_op_desc st opn = Inr opd \<and> map_option op_uid opd = opn
        \<and> (\<forall>x. opd = Some x \<longrightarrow> st (op_uid x) = Some (StoredOp x))"
  by (auto simp: holds_op_def get_node_op_desc_def get_op_desc_def
           split: option.splits stored.splits)

lemma store_resolves_node:
  assumes "store_resolves h t" and "get_node (graph t) i = Inr node"
  shows "node_resolved (h (store t)) (i, node)"
proof -
  from assms(2) have "map_of (nodes_by_id (graph t)) i = Some node"
    by (simp add: get_node_def split: option.splits)
  then have "(i, node) \<in> set (nodes_by_id (graph t))" by (rule map_of_SomeD)
  with assms(1) show ?thesis by (simp add: store_resolves_def list_all_iff)
qed

lemma store_resolves_empty: "store_resolves h \<lparr>store = a, graph = ProvGraph [] sgs\<rparr>"
  by (simp add: store_resolves_def)

text \<open>
  The store only grows, and an id it holds keeps its object, so what it resolves stays
  resolved.
\<close>

lemma store_data_item_le: "st \<subseteq>\<^sub>m store_data_item st d"
  by (auto simp: store_data_item_def map_le_def)

lemma store_op_desc_le: "st \<subseteq>\<^sub>m store_op_desc st opd"
  by (auto simp: store_op_desc_def map_le_def)

lemma foldl_store_data_item_le: "st \<subseteq>\<^sub>m foldl store_data_item st xs"
proof (induction xs arbitrary: st)
  case Nil
  show ?case by simp
next
  case (Cons x xs)
  have "st \<subseteq>\<^sub>m store_data_item st x" by (rule store_data_item_le)
  also have "\<dots> \<subseteq>\<^sub>m foldl store_data_item (store_data_item st x) xs" by (rule Cons.IH)
  finally show ?case by simp
qed

lemma holds_item_mono: "st \<subseteq>\<^sub>m st' \<Longrightarrow> holds_item st i \<Longrightarrow> holds_item st' i"
  by (auto simp: holds_item_def map_le_def dom_def split: option.splits stored.splits)

lemma holds_op_mono: "st \<subseteq>\<^sub>m st' \<Longrightarrow> holds_op st opn \<Longrightarrow> holds_op st' opn"
  by (auto simp: holds_op_def map_le_def dom_def split: option.splits stored.splits)

lemma node_resolved_mono:
  "st \<subseteq>\<^sub>m st' \<Longrightarrow> node_resolved st kn \<Longrightarrow> node_resolved st' kn"
  by (auto simp: node_resolved_def list_all_iff intro: holds_item_mono holds_op_mono)

lemma nodes_resolved_mono:
  "st \<subseteq>\<^sub>m st' \<Longrightarrow> list_all (node_resolved st) ns \<Longrightarrow> list_all (node_resolved st') ns"
  by (auto simp: list_all_iff intro: node_resolved_mono)


lemma add_derived_resolved:
  "list_all (node_resolved st) ns \<Longrightarrow> holds_item st i \<Longrightarrow>
     list_all (node_resolved st) (add_derived i s ns)"
  by (induction ns) (auto simp: node_resolved_def)

lemma foldl_add_derived_resolved:
  "list_all (node_resolved st) ns \<Longrightarrow> holds_item st i \<Longrightarrow>
     list_all (node_resolved st) (foldl (\<lambda>ns s. add_derived i s ns) ns srcs)"
  by (induction srcs arbitrary: ns) (simp_all add: add_derived_resolved)

lemma add_node_resolved:
  assumes "add_node g i opn srcs = Inr g'"
    and "list_all (node_resolved st) (nodes_by_id g)"
    and "holds_item st i" and "holds_op st opn" and "list_all (holds_item st) srcs"
  shows "list_all (node_resolved st) (nodes_by_id g')"
proof -
  from assms(1) have g': "nodes_by_id g' = foldl (\<lambda>ns s. add_derived i s ns)
        (nodes_by_id g @ [(i, \<lparr>data_item_id = i, operation_id = opn, source_ids = srcs,
                               derived_ids = []\<rparr>)]) srcs"
    by (auto simp: add_node_def Let_def split: if_splits)
  have "list_all (node_resolved st)
          (nodes_by_id g @ [(i, \<lparr>data_item_id = i, operation_id = opn, source_ids = srcs,
                               derived_ids = []\<rparr>)])"
    using assms(2-5) by (simp add: node_resolved_def)
  then show ?thesis unfolding g' using assms(3) by (rule foldl_add_derived_resolved)
qed

lemma store_data_item_holds:
  "st (uid x) = None \<or> holds_item st (uid x) \<Longrightarrow> holds_item (store_data_item st x) (uid x)"
  by (auto simp: store_data_item_def holds_item_def)

lemma store_data_item_keeps_apart:
  "st i = None \<or> holds_item st i \<Longrightarrow>
     store_data_item st x i = None \<or> holds_item (store_data_item st x) i"
  by (auto simp: store_data_item_def holds_item_def)

lemma foldl_store_data_item_holds:
  "\<forall>x\<in>set xs. st (uid x) = None \<or> holds_item st (uid x) \<Longrightarrow>
     \<forall>x\<in>set xs. holds_item (foldl store_data_item st xs) (uid x)"
proof (induction xs arbitrary: st)
  case Nil
  show ?case by simp
next
  case (Cons y ys)
  let ?st = "store_data_item st y"
  have y: "holds_item ?st (uid y)" using Cons.prems by (simp add: store_data_item_holds)
  have "holds_item (foldl store_data_item ?st ys) (uid y)"
    using foldl_store_data_item_le y by (rule holds_item_mono)
  moreover have "\<forall>x\<in>set ys. ?st (uid x) = None \<or> holds_item ?st (uid x)"
    using Cons.prems by (simp add: store_data_item_keeps_apart)
  ultimately show ?case using Cons.IH[of ?st] by simp
qed

lemma store_op_desc_holds:
  "st (op_uid opd) = None \<or> holds_op st (Some (op_uid opd)) \<Longrightarrow>
     holds_op (store_op_desc st opd) (Some (op_uid opd))"
  by (auto simp: store_op_desc_def holds_op_def)

lemma add_prov_store_resolves:
  assumes run: "add_prov h t d opd srcs = (r, h', t')"
    and inv: "store_resolves h t"
    and apart: "ids_apart (h (store t)) (d # srcs) opd"
  shows "store_resolves h' t'"
proof (cases "has_node (graph t) (uid d)")
  case True
  with run inv show ?thesis by (simp add: add_prov_def)
next
  case False
  let ?st = "h (store t)"
  let ?st1 = "store_data_item ?st d"
  let ?st2 = "store_op_desc ?st1 opd"
  let ?st3 = "foldl store_data_item ?st2 srcs"
  have le: "?st \<subseteq>\<^sub>m ?st3"
    using store_data_item_le[of ?st d] store_op_desc_le[of ?st1 opd]
      foldl_store_data_item_le[of ?st2 srcs]
    by (blast intro: map_le_trans)
  have le23: "?st2 \<subseteq>\<^sub>m ?st3" by (rule foldl_store_data_item_le)
  have le13: "?st1 \<subseteq>\<^sub>m ?st3"
    using store_op_desc_le[of ?st1 opd] le23 by (rule map_le_trans)
  have h': "h' = h(store t := ?st3)" and st': "store t' = store t"
    using run False by (auto simp: add_prov_def Let_def split: sum.splits)
  have old: "list_all (node_resolved ?st3) (nodes_by_id (graph t))"
    using le inv unfolding store_resolves_def by (rule nodes_resolved_mono)
  from False obtain g where g: "add_node (graph t) (uid d) (Some (op_uid opd)) (map uid srcs) = Inr g"
    using add_node_succeeds by blast
  with run False have t': "t' = t\<lparr>graph := g\<rparr>" by (simp add: add_prov_def Let_def)
  have d1: "holds_item ?st1 (uid d)"
    using apart by (simp add: ids_apart_def store_data_item_holds)
  then have d3: "holds_item ?st3 (uid d)" using le13 holds_item_mono by blast
  have "?st1 (op_uid opd) = None \<or> holds_op ?st1 (Some (op_uid opd))"
    using apart by (auto simp: ids_apart_def store_data_item_def holds_op_def)
  then have "holds_op ?st2 (Some (op_uid opd))" by (rule store_op_desc_holds)
  then have o3: "holds_op ?st3 (Some (op_uid opd))" using le23 holds_op_mono by blast
  have "\<forall>x\<in>set srcs. ?st2 (uid x) = None \<or> holds_item ?st2 (uid x)"
  proof
    fix x assume x: "x \<in> set srcs"
    with apart have "uid x \<noteq> op_uid opd" and "?st (uid x) = None \<or> holds_item ?st (uid x)"
      by (auto simp: ids_apart_def list_all_iff)
    then have "?st1 (uid x) = None \<or> holds_item ?st1 (uid x)"
      by (simp add: store_data_item_keeps_apart)
    with \<open>uid x \<noteq> op_uid opd\<close> show "?st2 (uid x) = None \<or> holds_item ?st2 (uid x)"
      by (auto simp: store_op_desc_def holds_item_def)
  qed
  then have "\<forall>x\<in>set srcs. holds_item ?st3 (uid x)" by (rule foldl_store_data_item_holds)
  then have s3: "list_all (holds_item ?st3) (map uid srcs)" by (simp add: list_all_iff)
  have "list_all (node_resolved ?st3) (nodes_by_id g)"
    using g old d3 o3 s3 by (rule add_node_resolved)
  then show ?thesis by (simp add: store_resolves_def h' t')
qed


lemma has_node_resolved:
  assumes "list_all (node_resolved st) (nodes_by_id g)" and "get_node g i = Inr n"
  shows "holds_item st i"
proof -
  from assms(2) have "map_of (nodes_by_id g) i = Some n"
    by (simp add: get_node_def split: option.splits)
  then have "(i, n) \<in> set (nodes_by_id g)" by (rule map_of_SomeD)
  with assms(1) show ?thesis by (auto simp: list_all_iff node_resolved_def)
qed

lemma for_data_items_resolved:
  "add_prov_for_data_items g ds opn sg = (r, g') \<Longrightarrow>
   list_all (node_resolved st) (nodes_by_id g) \<Longrightarrow>
   list_all (node_resolved st) (nodes_by_id sg) \<Longrightarrow>
   holds_op st (Some opn) \<Longrightarrow>
   list_all (node_resolved st) (nodes_by_id g')"
proof (induction ds arbitrary: g)
  case Nil
  then show ?case by simp
next
  case (Cons d ds)
  show ?case
  proof (cases "has_node g (uid d)")
    case True
    with Cons.prems Cons.IH[of g] show ?thesis
      by (auto simp: get_node_def has_node_def split: option.splits if_splits)
  next
    case False
    obtain r1 g1 where s: "add_prov_from_sub_tracer_for_data_item g (uid d) opn sg = (r1, g1)"
      by (cases "add_prov_from_sub_tracer_for_data_item g (uid d) opn sg")
    show ?thesis
    proof (cases r1)
      case (Inl e)
      with s for_data_item_error[of g "uid d" opn sg e g1] Cons.prems False show ?thesis by simp
    next
      case (Inr u)
      with s for_data_item_ok[of g "uid d" opn sg u g1] obtain srcs seen
        where bfs: "find_source_ids sg [uid d] {} [] = Inr (srcs, seen)"
          and add: "add_node g (uid d) (Some opn) srcs = Inr g1" by blast
      from s Inr have "has_node sg (uid d)"
        by (auto simp: add_prov_from_sub_tracer_for_data_item_def split: if_splits)
      then obtain n where "get_node sg (uid d) = Inr n"
        by (auto simp: get_node_def has_node_def)
      then have item: "holds_item st (uid d)"
        using Cons.prems(3) has_node_resolved by blast
      have "set srcs = {y. reaches sg (uid d) y \<and> external_input sg y}"
        using find_source_ids_from(2)[OF bfs] .
      then have "\<forall>y\<in>set srcs. \<exists>n. get_node sg y = Inr n"
        by (auto simp: external_input_def)
      then have "list_all (holds_item st) srcs"
        using Cons.prems(3) has_node_resolved by (auto simp: list_all_iff)
      with add Cons.prems(2,4) item have "list_all (node_resolved st) (nodes_by_id g1)"
        using add_node_resolved by blast
      moreover have "add_prov_for_data_items g1 ds opn sg = (r, g')"
        using Cons.prems(1) False s Inr by simp
      ultimately show ?thesis using Cons.IH Cons.prems(3,4) by blast
    qed
  qed
qed

lemma add_prov_from_sub_tracer_store_resolves:
  assumes run: "add_prov_from_sub_tracer h t ds opd sub_tracer = (r, h', t')"
    and inv: "store_resolves h t" and sub: "store_resolves h sub_tracer"
    and apart: "ids_apart (h (store t)) [] opd"
  shows "store_resolves h' t'"
proof (cases "store t = store sub_tracer")
  case False
  with run inv show ?thesis by (simp add: add_prov_from_sub_tracer_def)
next
  case True
  let ?st = "h (store t)"
  let ?st' = "store_op_desc ?st opd"
  have le: "?st \<subseteq>\<^sub>m ?st'" by (rule store_op_desc_le)
  have old: "list_all (node_resolved ?st') (nodes_by_id (graph t))"
    using le inv unfolding store_resolves_def by (rule nodes_resolved_mono)
  have inner: "list_all (node_resolved ?st') (nodes_by_id (graph sub_tracer))"
    using le sub True unfolding store_resolves_def by (auto intro: nodes_resolved_mono)
  have op: "holds_op ?st' (Some (op_uid opd))"
    using apart by (simp add: ids_apart_def store_op_desc_holds)
  show ?thesis
  proof (cases "add_sub_graph (graph t) (op_uid opd) (graph sub_tracer)")
    case (Inl e)
    with run True old show ?thesis
      by (auto simp: add_prov_from_sub_tracer_def Let_def store_resolves_def)
  next
    case (Inr g)
    then have g: "nodes_by_id g = nodes_by_id (graph t)"
      by (auto simp: add_sub_graph_def split: if_splits)
    obtain r1 g1 where loop:
      "add_prov_for_data_items g ds (op_uid opd) (graph sub_tracer) = (r1, g1)"
      by (cases "add_prov_for_data_items g ds (op_uid opd) (graph sub_tracer)")
    with run True Inr have res: "h' = h(store t := ?st')" "t' = t\<lparr>graph := g1\<rparr>"
      by (auto simp: add_prov_from_sub_tracer_def Let_def)
    have "list_all (node_resolved ?st') (nodes_by_id g1)"
      using for_data_items_resolved[OF loop _ inner op] old g by simp
    then show ?thesis by (simp add: store_resolves_def res)
  qed
qed

text \<open>
  Claim C4. \<open>get_prov\<close> raises \<open>ValueError\<close> exactly when the id has no node in the
  tracer's own graph, and an id that has a node only in a sub-tracer is not found either.
  For every tracked id of a tracer whose store resolves its graph, \<open>get_prov\<close> returns a
  \<open>Prov\<close>, and that \<open>Prov\<close> is the join of the node against the store: its data item is
  the item stored under the id; its operation is the description stored under the
  node's \<open>operation_id\<close>, and none when the node has none; its source and its derived
  data items are the items stored under \<open>source_ids\<close> and \<open>derived_ids\<close>, one for each
  id, in the order of the node. The empty tracer's store resolves its graph, and
  \<open>add_prov\<close> and \<open>add_prov_from_sub_tracer\<close> keep it so (\<open>store_resolves_empty\<close>,
  \<open>add_prov_store_resolves\<close>, \<open>add_prov_from_sub_tracer_store_resolves\<close>), as long as no
  id is used for both a data item and an operation description.
\<close>

theorem get_prov_not_found_or_joined:
  "(get_prov h t i = Inl ValueError \<longleftrightarrow> \<not> has_prov t i) \<and>
   (\<forall>opn sub_tracer. get_sub_prov_tracer t opn = Inr sub_tracer \<and> has_prov sub_tracer i
        \<and> \<not> has_prov t i \<longrightarrow> get_prov h t i = Inl ValueError) \<and>
   (store_resolves h t \<and> has_prov t i \<longrightarrow>
      (\<exists>node d opd srcs ders.
         get_node (graph t) i = Inr node
       \<and> get_prov h t i = Inr \<lparr>data_item = d, op_desc = opd, source_data_items = srcs,
                                 derived_data_items = ders\<rparr>
       \<and> uid d = i \<and> h (store t) i = Some (StoredItem d)
       \<and> map_option op_uid opd = operation_id node
       \<and> (\<forall>x. opd = Some x \<longrightarrow> h (store t) (op_uid x) = Some (StoredOp x))
       \<and> map uid srcs = source_ids node
       \<and> (\<forall>s\<in>set srcs. h (store t) (uid s) = Some (StoredItem s))
       \<and> map uid ders = derived_ids node
       \<and> (\<forall>s\<in>set ders. h (store t) (uid s) = Some (StoredItem s))))"
proof (intro conjI allI impI)
  show "get_prov h t i = Inl ValueError \<longleftrightarrow> \<not> has_prov t i"
    by (auto simp: get_prov_def has_prov_def get_node_def has_node_def
             dest: build_prov_from_node_error split: option.splits)
next
  fix opn sub_tracer
  assume "get_sub_prov_tracer t opn = Inr sub_tracer \<and> has_prov sub_tracer i \<and> \<not> has_prov t i"
  then show "get_prov h t i = Inl ValueError"
    by (simp add: get_prov_def has_prov_def)
next
  let ?st = "h (store t)"
  assume a: "store_resolves h t \<and> has_prov t i"
  then have has: "has_node (graph t) i" by (simp add: has_prov_def)
  then obtain node where node: "get_node (graph t) i = Inr node"
    by (auto simp: get_node_def has_node_def)
  from a node have res: "node_resolved ?st (i, node)" by (simp add: store_resolves_node)
  then have id: "data_item_id node = i" by (simp add: node_resolved_def)
  from res obtain d where d: "?st i = Some (StoredItem d)" "uid d = i"
    using holds_itemD by (auto simp: node_resolved_def)
  from res obtain opd where opd: "get_node_op_desc ?st (operation_id node) = Inr opd"
      "map_option op_uid opd = operation_id node"
      "\<forall>x. opd = Some x \<longrightarrow> ?st (op_uid x) = Some (StoredOp x)"
    using get_node_op_desc_resolved[of ?st "operation_id node"] by (auto simp: node_resolved_def)
  from res obtain srcs where srcs: "get_data_items ?st (source_ids node) = Inr srcs"
      "map uid srcs = source_ids node" "\<forall>s\<in>set srcs. ?st (uid s) = Some (StoredItem s)"
    using get_data_items_resolved[of ?st "source_ids node"] by (auto simp: node_resolved_def)
  from res obtain ders where ders: "get_data_items ?st (derived_ids node) = Inr ders"
      "map uid ders = derived_ids node" "\<forall>s\<in>set ders. ?st (uid s) = Some (StoredItem s)"
    using get_data_items_resolved[of ?st "derived_ids node"] by (auto simp: node_resolved_def)
  have "get_prov h t i = Inr \<lparr>data_item = d, op_desc = opd, source_data_items = srcs,
                                 derived_data_items = ders\<rparr>"
    using has node id d opd(1) srcs(1) ders(1)
    by (simp add: get_prov_def build_prov_from_node_def get_data_item_def)
  with node d opd srcs ders
  show "\<exists>node d opd srcs ders.
         get_node (graph t) i = Inr node
       \<and> get_prov h t i = Inr \<lparr>data_item = d, op_desc = opd, source_data_items = srcs,
                                 derived_data_items = ders\<rparr>
       \<and> uid d = i \<and> h (store t) i = Some (StoredItem d)
       \<and> map_option op_uid opd = operation_id node
       \<and> (\<forall>x. opd = Some x \<longrightarrow> h (store t) (op_uid x) = Some (StoredOp x))
       \<and> map uid srcs = source_ids node
       \<and> (\<forall>s\<in>set srcs. h (store t) (uid s) = Some (StoredItem s))
       \<and> map uid ders = derived_ids node
       \<and> (\<forall>s\<in>set ders. h (store t) (uid s) = Some (StoredItem s))"
    by blast
qed

theorem get_prov_not_found_or_joined_witness:
  "store_resolves ex_heap ex_tracer
   \<and> get_prov ex_heap ex_tracer ''A'' =
     Inr \<lparr>data_item = ex_A, op_desc = Some ex_O1, source_data_items = [],
          derived_data_items = [ex_B]\<rparr>
   \<and> get_prov ex_heap ex_tracer ''B'' =
     Inr \<lparr>data_item = ex_B, op_desc = Some ex_O2, source_data_items = [ex_A],
          derived_data_items = []\<rparr>
   \<and> get_sub_prov_tracer ex_tracer ''P'' =
       Inr \<lparr>store = 0, graph = ProvGraph
            [(''C'', \<lparr>data_item_id = ''C'', operation_id = Some ''O3'', source_ids = [],
                      derived_ids = []\<rparr>)] []\<rparr>
   \<and> has_prov \<lparr>store = 0, graph = ProvGraph
            [(''C'', \<lparr>data_item_id = ''C'', operation_id = Some ''O3'', source_ids = [],
                      derived_ids = []\<rparr>)] []\<rparr> ''C''
   \<and> \<not> has_prov ex_tracer ''C''
   \<and> get_prov ex_heap ex_tracer ''C'' = Inl ValueError"
proof -
  have inv: "store_resolves ex_heap ex_tracer"
    by (simp add: store_resolves_def node_resolved_def holds_item_def holds_op_def
          ex_heap_def ex_tracer_def ex_A_def ex_B_def ex_O1_def ex_O2_def)
  have tracked: "has_prov ex_tracer i" if "i = ''A'' \<or> i = ''B''" for i
    using that by (auto simp: ex_tracer_def has_prov_def has_node_def)
  have st: "ex_heap (store ex_tracer) =
      [''A'' \<mapsto> StoredItem ex_A, ''O1'' \<mapsto> StoredOp ex_O1,
       ''B'' \<mapsto> StoredItem ex_B, ''O2'' \<mapsto> StoredOp ex_O2]"
    by (simp add: ex_heap_def ex_tracer_def)
  have nodeA: "get_node (graph ex_tracer) ''A'' =
      Inr \<lparr>data_item_id = ''A'', operation_id = Some ''O1'', source_ids = [],
                  derived_ids = [''B'']\<rparr>"
    and nodeB: "get_node (graph ex_tracer) ''B'' =
      Inr \<lparr>data_item_id = ''B'', operation_id = Some ''O2'', source_ids = [''A''],
                  derived_ids = []\<rparr>"
    by (simp_all add: ex_tracer_def get_node_def)
  have sub: "get_sub_prov_tracer ex_tracer ''P'' =
       Inr \<lparr>store = 0, graph = ProvGraph
            [(''C'', \<lparr>data_item_id = ''C'', operation_id = Some ''O3'', source_ids = [],
                      derived_ids = []\<rparr>)] []\<rparr>"
    by (simp add: ex_tracer_def get_sub_prov_tracer_def get_sub_graph_def)
  have inner: "has_prov \<lparr>store = 0, graph = ProvGraph
            [(''C'', \<lparr>data_item_id = ''C'', operation_id = Some ''O3'', source_ids = [],
                      derived_ids = []\<rparr>)] []\<rparr> ''C''"
    by (simp add: has_prov_def has_node_def)
  have outer: "\<not> has_prov ex_tracer ''C''"
    by (simp add: ex_tracer_def has_prov_def has_node_def)
  have A: "get_prov ex_heap ex_tracer ''A'' =
     Inr \<lparr>data_item = ex_A, op_desc = Some ex_O1, source_data_items = [],
          derived_data_items = [ex_B]\<rparr>"
    using get_prov_not_found_or_joined[of ex_heap ex_tracer "''A''"] inv tracked[of "''A''"]
    by (auto simp: st nodeA ex_A_def ex_B_def ex_O1_def map_eq_Cons_conv split: if_splits)
  have B: "get_prov ex_heap ex_tracer ''B'' =
     Inr \<lparr>data_item = ex_B, op_desc = Some ex_O2, source_data_items = [ex_A],
          derived_data_items = []\<rparr>"
    using get_prov_not_found_or_joined[of ex_heap ex_tracer "''B''"] inv tracked[of "''B''"]
    by (auto simp: st nodeB ex_A_def ex_B_def ex_O2_def map_eq_Cons_conv split: if_splits)
  have C: "get_prov ex_heap ex_tracer ''C'' = Inl ValueError"
    using get_prov_not_found_or_joined[of ex_heap ex_tracer "''C''"] outer by blast
  from inv A B sub inner outer C show ?thesis by simp
qed

text \<open>
  The store has to resolve the graph: a tracer over a store that lacks the item of a
  node tracks the id, and \<open>get_prov\<close> fails in the store's lookup, with another error than
  the not-found one.
\<close>

lemma tracked_id_unresolved:
  "has_prov ex_tracer ''A'' \<and> get_prov (\<lambda>a. Map.empty) ex_tracer ''A'' = Inl UsageError"
  by (simp add: ex_tracer_def has_prov_def has_node_def get_prov_def get_node_def
        build_prov_from_node_def get_data_item_def)

end
